theory Spec2Isabelle
  imports Main "HOL-Library.List_Lexorder" "HOL-Library.AList"
begin

section \<open>Python strings\<close>

text \<open>
  A Python \<^verbatim>\<open>str\<close> is a sequence of Unicode code points, and Python compares two
  strings code point by code point. A string is therefore a list of natural numbers,
  ordered lexicographically (the order of \<open>HOL-Library.List_Lexorder\<close>). ASCII literals
  are written \<open>ascii ''...''\<close>; Cyrillic text is written by its code points
  (U+0430 is the small letter a, U+044F the small letter ya).
\<close>

type_synonym pystr = "nat list"

definition ascii :: "string \<Rightarrow> pystr" where
  "ascii s = map of_char s"

text \<open>\<^verbatim>\<open>s.split(sep)\<close> for a separator of one character.\<close>

fun py_split :: "nat \<Rightarrow> pystr \<Rightarrow> pystr list" where
  "py_split sep [] = [[]]"
| "py_split sep (c # cs) =
     (if c = sep then [] # py_split sep cs
      else (case py_split sep cs of
              [] \<Rightarrow> [[c]]
            | p # ps \<Rightarrow> (c # p) # ps))"

text \<open>\<^verbatim>\<open>sep.join(parts)\<close>.\<close>

fun py_join :: "pystr \<Rightarrow> pystr list \<Rightarrow> pystr" where
  "py_join sep [] = []"
| "py_join sep [p] = p"
| "py_join sep (p # q # ps) = p @ sep @ py_join sep (q # ps)"

text \<open>\<^verbatim>\<open>s.rfind(c)\<close>: the index of the last occurrence of the character, or -1.\<close>

definition py_rfind :: "pystr \<Rightarrow> nat \<Rightarrow> int" where
  "py_rfind p c =
     (case filter (\<lambda>i. p ! i = c) (rev [0..<length p]) of
        [] \<Rightarrow> - 1
      | i # _ \<Rightarrow> int i)"

text \<open>
  \<^verbatim>\<open>s.zfill(width)\<close>: a string at least as long as the width is returned as it is;
  otherwise zeros are put in front, after a leading sign if there is one.
\<close>

definition py_zfill :: "nat \<Rightarrow> pystr \<Rightarrow> pystr" where
  "py_zfill width s =
     (if width \<le> length s then s
      else (case s of
              [] \<Rightarrow> replicate (width - length s) 0x30
            | c # cs \<Rightarrow>
                if c = 0x2B \<or> c = 0x2D
                then c # replicate (width - length s) 0x30 @ cs
                else replicate (width - length s) 0x30 @ s))"

subsection \<open>The Unicode tables the program reads through the standard library\<close>

text \<open>
  \<^verbatim>\<open>Py_UNICODE_ISSPACE\<close>: the characters that \<^verbatim>\<open>\s\<close> matches in a \<^verbatim>\<open>str\<close> pattern and
  that \<^verbatim>\<open>str.strip()\<close> removes.
\<close>

definition uni_isspace :: "nat \<Rightarrow> bool" where
  "uni_isspace c \<longleftrightarrow>
     (0x09 \<le> c \<and> c \<le> 0x0D) \<or> (0x1C \<le> c \<and> c \<le> 0x20) \<or> c = 0x85 \<or> c = 0xA0 \<or>
     c = 0x1680 \<or> (0x2000 \<le> c \<and> c \<le> 0x200A) \<or> c = 0x2028 \<or> c = 0x2029 \<or>
     c = 0x202F \<or> c = 0x205F \<or> c = 0x3000"

text \<open>
  The decimal digits (general category Nd, Unicode 15.0) come in runs of ten that start
  at the digit zero of a script; the list holds these zeros. \<^verbatim>\<open>\d\<close> in a \<^verbatim>\<open>str\<close>
  pattern compiled without \<^verbatim>\<open>re.ASCII\<close> matches all of them, not only 0-9.
\<close>

definition decimal_zeros :: "nat list" where
  "decimal_zeros =
     [0x30, 0x660, 0x6F0, 0x7C0, 0x966, 0x9E6, 0xA66, 0xAE6, 0xB66, 0xBE6, 0xC66, 0xCE6,
      0xD66, 0xDE6, 0xE50, 0xED0, 0xF20, 0x1040, 0x1090, 0x17E0, 0x1810, 0x1946, 0x19D0,
      0x1A80, 0x1A90, 0x1B50, 0x1BB0, 0x1C40, 0x1C50, 0xA620, 0xA8D0, 0xA900, 0xA9D0,
      0xA9F0, 0xAA50, 0xABF0, 0xFF10, 0x104A0, 0x10D30, 0x11066, 0x110F0, 0x11136,
      0x111D0, 0x112F0, 0x11450, 0x114D0, 0x11650, 0x116C0, 0x11730, 0x118E0, 0x11950,
      0x11C50, 0x11D50, 0x11DA0, 0x11F50, 0x16A60, 0x16AC0, 0x16B50,
      0x1D7CE, 0x1D7D8, 0x1D7E2, 0x1D7EC, 0x1D7F6,
      0x1E140, 0x1E2F0, 0x1E4F0, 0x1E950, 0x1FBF0]"

definition uni_isdecimal :: "nat \<Rightarrow> bool" where
  "uni_isdecimal c = list_ex (\<lambda>z. z \<le> c \<and> c < z + 10) decimal_zeros"

text \<open>
  The simple lowercase mapping (\<^verbatim>\<open>Py_UNICODE_TOLOWER\<close>) on Basic Latin, Latin-1 and
  Cyrillic, and on the two characters outside these blocks whose lowercase form is an
  ASCII letter (U+0130, U+212A). Other code points are left as they are: none of them is
  mapped into ASCII or into U+0430..U+044F, the only lowercase text this program compares
  with.
\<close>

definition uni_tolower :: "nat \<Rightarrow> nat" where
  "uni_tolower c =
     (if 0x41 \<le> c \<and> c \<le> 0x5A then c + 32
      else if 0xC0 \<le> c \<and> c \<le> 0xDE \<and> c \<noteq> 0xD7 then c + 32
      else if c = 0x130 then 0x69
      else if 0x400 \<le> c \<and> c \<le> 0x40F then c + 80
      else if 0x410 \<le> c \<and> c \<le> 0x42F then c + 32
      else if c = 0x212A then 0x6B
      else c)"

text \<open>
  \<^verbatim>\<open>s.lower()\<close> uses the full mapping, which differs from the simple one at U+0130:
  its lowercase form is the two code points U+0069 U+0307.
\<close>

definition py_lower :: "pystr \<Rightarrow> pystr" where
  "py_lower s = concat (map (\<lambda>c. if c = 0x130 then [0x69, 0x307] else [uni_tolower c]) s)"

section \<open>Configuration\<close>

record config =
  input_dir :: pystr
  encoding :: pystr
  output_dir :: pystr
  image_extensions :: "pystr list"

text \<open>
  The dataclass constructor with \<^verbatim>\<open>__post_init__\<close>: when no extension list is given
  (\<^verbatim>\<open>None\<close>) the default list is installed.
\<close>

definition Config :: "pystr \<Rightarrow> pystr \<Rightarrow> pystr \<Rightarrow> pystr list option \<Rightarrow> config" where
  "Config dir enc out exts =
     \<lparr> input_dir = dir, encoding = enc, output_dir = out,
       image_extensions =
         (case exts of
            None \<Rightarrow> [ascii ''.jpg'', ascii ''.jpeg'', ascii ''.png'', ascii ''.gif'',
                     ascii ''.bmp'', ascii ''.webp'', ascii ''.svg'']
          | Some l \<Rightarrow> l) \<rparr>"

section \<open>Link Classifier\<close>

text \<open>
  \<^verbatim>\<open>os.path.splitext\<close> is \<^verbatim>\<open>genericpath._splitext\<close> with the separators of the
  platform: \<^verbatim>\<open>/\<close> on POSIX, \<^verbatim>\<open>\\<close> with the alternative \<^verbatim>\<open>/\<close> on Windows. Its loop
  skips the dots that start the file name; the first other character before the last dot
  makes that dot the start of the extension.
\<close>

datatype os_name = Posix | Nt

function skip_leading_dots :: "pystr \<Rightarrow> nat \<Rightarrow> nat \<Rightarrow> nat \<Rightarrow> (pystr \<times> pystr) option" where
  "skip_leading_dots p extsep filenameIndex dotIndex =
     (if filenameIndex < dotIndex
      then (if take 1 (drop filenameIndex p) \<noteq> [extsep]
            then Some (take dotIndex p, drop dotIndex p)
            else skip_leading_dots p extsep (filenameIndex + 1) dotIndex)
      else None)"
  by pat_completeness auto
termination
  by (relation "measure (\<lambda>(p, extsep, filenameIndex, dotIndex). dotIndex - filenameIndex)") auto

definition splitext_generic :: "pystr \<Rightarrow> nat \<Rightarrow> nat option \<Rightarrow> nat \<Rightarrow> pystr \<times> pystr" where
  "splitext_generic p sep altsep extsep =
     (let sepIndex = (case altsep of
                        None \<Rightarrow> py_rfind p sep
                      | Some a \<Rightarrow> max (py_rfind p sep) (py_rfind p a));
          dotIndex = py_rfind p extsep
      in if dotIndex > sepIndex
         then (case skip_leading_dots p extsep (nat (sepIndex + 1)) (nat dotIndex) of
                 Some r \<Rightarrow> r
               | None \<Rightarrow> (p, []))
         else (p, []))"

definition os_path_splitext :: "os_name \<Rightarrow> pystr \<Rightarrow> pystr \<times> pystr" where
  "os_path_splitext os p =
     (case os of
        Posix \<Rightarrow> splitext_generic p 0x2F None 0x2E
      | Nt \<Rightarrow> splitext_generic p 0x5C (Some 0x2F) 0x2E)"

text \<open>
  \<^verbatim>\<open>is_image_link\<close>. \<^verbatim>\<open>href.split('?')[0]\<close> is the head of the split, which is never
  the empty list (lemma \<open>py_split_not_Nil\<close>), so the index 0 cannot fail.
\<close>

definition is_image_link :: "os_name \<Rightarrow> config \<Rightarrow> pystr \<Rightarrow> bool" where
  "is_image_link os cfg href =
     (let clean_href = hd (py_split 0x3F href);
          ext = py_lower (snd (os_path_splitext os clean_href))
      in ext \<in> set (image_extensions cfg))"

section \<open>Date Extractor\<close>

text \<open>
  \<^verbatim>\<open>DATE_PATTERN = re.compile(r'(\d{1,2})\s([a-ya]{3})\s(\d{4})', re.IGNORECASE)\<close>, where
  the range of the character class runs from U+0430 to U+044F. Under \<^verbatim>\<open>IGNORECASE\<close> a
  character is in the class when its simple lowercase form is in the range or is one of
  the letters the \<^verbatim>\<open>re\<close> module treats as case-equivalent to a letter of the range
  (U+1C80..U+1C86).
\<close>

definition in_month_class :: "nat \<Rightarrow> bool" where
  "in_month_class c \<longleftrightarrow>
     (0x430 \<le> uni_tolower c \<and> uni_tolower c \<le> 0x44F) \<or>
     (0x1C80 \<le> uni_tolower c \<and> uni_tolower c \<le> 0x1C86)"

text \<open>
  The part of the pattern after the day, \<^verbatim>\<open>\s([a-ya]{3})\s(\d{4})\<close>, matched at the start
  of a string: every item takes exactly one character, so there is one way to match.
  The result holds the groups 2 and 3.
\<close>

fun match_tail :: "pystr \<Rightarrow> (pystr \<times> pystr) option" where
  "match_tail (s1 # a # b # c # s2 # y1 # y2 # y3 # y4 # rest) =
     (if uni_isspace s1 \<and> in_month_class a \<and> in_month_class b \<and> in_month_class c \<and>
         uni_isspace s2 \<and> uni_isdecimal y1 \<and> uni_isdecimal y2 \<and> uni_isdecimal y3 \<and>
         uni_isdecimal y4
      then Some ([a, b, c], [y1, y2, y3, y4])
      else None)"
| "match_tail _ = None"

text \<open>The whole pattern at the start of a string, with a day of exactly \<open>n\<close> digits.\<close>

definition match_day :: "nat \<Rightarrow> pystr \<Rightarrow> (pystr \<times> pystr \<times> pystr) option" where
  "match_day n s =
     (if n \<le> length s \<and> list_all uni_isdecimal (take n s)
      then (case match_tail (drop n s) of
              None \<Rightarrow> None
            | Some (mon, year) \<Rightarrow> Some (take n s, mon, year))
      else None)"

text \<open>
  \<^verbatim>\<open>\d{1,2}\<close> is greedy: the matcher tries two digits first and falls back to one.
\<close>

definition match_here :: "pystr \<Rightarrow> (pystr \<times> pystr \<times> pystr) option" where
  "match_here s =
     (case match_day 2 s of
        Some g \<Rightarrow> Some g
      | None \<Rightarrow> match_day 1 s)"

text \<open>
  \<^verbatim>\<open>DATE_PATTERN.search(text)\<close>: the match at the leftmost position that has one;
  the result is \<^verbatim>\<open>match.groups()\<close>, or \<open>None\<close> when no position matches.
\<close>

fun DATE_PATTERN_search :: "pystr \<Rightarrow> (pystr \<times> pystr \<times> pystr) option" where
  "DATE_PATTERN_search [] = match_here []"
| "DATE_PATTERN_search (c # cs) =
     (case match_here (c # cs) of
        Some g \<Rightarrow> Some g
      | None \<Rightarrow> DATE_PATTERN_search cs)"

text \<open>The dictionary \<^verbatim>\<open>MONTHS\<close>, keys in the order of the source.\<close>

definition MONTHS :: "(pystr \<times> pystr) list" where
  "MONTHS =
     [([0x44F, 0x43D, 0x432], ascii ''01''), ([0x444, 0x435, 0x432], ascii ''02''),
      ([0x43C, 0x430, 0x440], ascii ''03''), ([0x430, 0x43F, 0x440], ascii ''04''),
      ([0x43C, 0x430, 0x44F], ascii ''05''), ([0x438, 0x44E, 0x43D], ascii ''06''),
      ([0x438, 0x44E, 0x43B], ascii ''07''), ([0x430, 0x432, 0x433], ascii ''08''),
      ([0x441, 0x435, 0x43D], ascii ''09''), ([0x43E, 0x43A, 0x442], ascii ''10''),
      ([0x43D, 0x43E, 0x44F], ascii ''11''), ([0x434, 0x435, 0x43A], ascii ''12'')]"

text \<open>
  \<^verbatim>\<open>extract_date\<close>. \<^verbatim>\<open>not month\<close> holds for \<open>None\<close> and for the empty string. The
  function has no operation that can raise: slicing, \<^verbatim>\<open>dict.get\<close>, \<^verbatim>\<open>lower\<close> and
  \<^verbatim>\<open>zfill\<close> are total, so its result type has no error alternative.
\<close>

definition extract_date :: "pystr \<Rightarrow> pystr option" where
  "extract_date text =
     (case DATE_PATTERN_search text of
        None \<Rightarrow> None
      | Some (day, mon_rus, year) \<Rightarrow>
          (case map_of MONTHS (py_lower (take 3 mon_rus)) of
             None \<Rightarrow> None
           | Some month \<Rightarrow>
               if month = [] then None
               else Some (year @ [0x2E] @ py_zfill 2 month @ [0x2E] @ py_zfill 2 day)))"

subsection \<open>The calendar reading of a date key\<close>

text \<open>
  The number a digit string denotes, as \<^verbatim>\<open>int()\<close> reads it: every decimal digit of
  Unicode counts with its value, the distance from the zero of its run. The program
  never computes these numbers; they state what chronological order means.
\<close>

definition digit_value :: "nat \<Rightarrow> nat" where
  "digit_value c =
     (case List.find (\<lambda>z. z \<le> c \<and> c < z + 10) decimal_zeros of
        None \<Rightarrow> 0
      | Some z \<Rightarrow> c - z)"

definition number_of :: "pystr \<Rightarrow> nat" where
  "number_of ds = foldl (\<lambda>acc c. 10 * acc + digit_value c) 0 ds"

text \<open>
  The (year, month, day) triple of the first match of a text, for a month of the
  table.
\<close>

definition date_triple :: "pystr \<Rightarrow> (nat \<times> nat \<times> nat) option" where
  "date_triple text =
     (case DATE_PATTERN_search text of
        None \<Rightarrow> None
      | Some (day, mon_rus, year) \<Rightarrow>
          (case map_of MONTHS (py_lower (take 3 mon_rus)) of
             None \<Rightarrow> None
           | Some month \<Rightarrow> Some (number_of year, number_of month, number_of day)))"

definition chrono_less :: "nat \<times> nat \<times> nat \<Rightarrow> nat \<times> nat \<times> nat \<Rightarrow> bool" where
  "chrono_less p q =
     (case p of (y1, m1, d1) \<Rightarrow>
        (case q of (y2, m2, d2) \<Rightarrow>
           y1 < y2 \<or> (y1 = y2 \<and> (m1 < m2 \<or> (m1 = m2 \<and> d1 < d2)))))"

definition ascii_digits :: "pystr \<Rightarrow> bool" where
  "ascii_digits s = list_all (\<lambda>c. 0x30 \<le> c \<and> c \<le> 0x39) s"

text \<open>A date key written with the ASCII digits 0-9 and periods only.\<close>

definition ascii_date_key :: "pystr \<Rightarrow> bool" where
  "ascii_date_key k = list_all (\<lambda>c. c = 0x2E \<or> (0x30 \<le> c \<and> c \<le> 0x39)) k"

section \<open>Parsed documents\<close>

text \<open>
  The tree BeautifulSoup builds, with what the program reads of it: the name of a tag,
  the value of its \<^verbatim>\<open>href\<close> attribute when it has one, the tokens of its \<^verbatim>\<open>class\<close>
  attribute (the parser splits the attribute at whitespace) and its children; and the
  text nodes. \<^verbatim>\<open>class_="message"\<close> selects a tag one of whose class tokens is that
  string. The root of a document is the \<^verbatim>\<open>BeautifulSoup\<close> object, a tag of its own.
\<close>

datatype node =
    Tag pystr "pystr option" "pystr list" "node list"
  | NavigableString pystr

text \<open>
  A node and what lies below it, in document order, each with its chain of ancestors
  (nearest first); \<open>descendants\<close> leaves the node itself out, as \<^verbatim>\<open>Tag.descendants\<close> does.
\<close>

fun descend :: "node list \<Rightarrow> node \<Rightarrow> (node \<times> node list) list" where
  "descend parents (NavigableString s) = [(NavigableString s, parents)]"
| "descend parents (Tag name href cls kids) =
     (Tag name href cls kids, parents) #
     concat (map (descend (Tag name href cls kids # parents)) kids)"

definition descendants :: "node list \<Rightarrow> node \<Rightarrow> (node \<times> node list) list" where
  "descendants parents t =
     (case t of
        NavigableString s \<Rightarrow> []
      | Tag name href cls kids \<Rightarrow> concat (map (descend (t # parents)) kids))"

definition has_name_class :: "pystr \<Rightarrow> pystr \<Rightarrow> node \<Rightarrow> bool" where
  "has_name_class name cls t =
     (case t of
        NavigableString s \<Rightarrow> False
      | Tag n href c kids \<Rightarrow> n = name \<and> cls \<in> set c)"

text \<open>
  \<^verbatim>\<open>soup.find_all("a", href=True)\<close>: the \<^verbatim>\<open>a\<close> tags that have the attribute, in document
  order; each is given by the attribute's value (what \<^verbatim>\<open>link_tag["href"]\<close> reads) and
  its ancestors.
\<close>

definition find_all_a_href :: "node \<Rightarrow> (pystr \<times> node list) list" where
  "find_all_a_href soup =
     concat (map (\<lambda>(t, parents).
                    case t of
                      NavigableString s \<Rightarrow> []
                    | Tag name href cls kids \<Rightarrow>
                        (case href of
                           None \<Rightarrow> []
                         | Some v \<Rightarrow> if name = ascii ''a'' then [(v, parents)] else []))
                 (descendants [] soup))"

text \<open>\<^verbatim>\<open>find_parent(name, class_=cls)\<close>: the nearest ancestor that matches.\<close>

definition find_parent :: "pystr \<Rightarrow> pystr \<Rightarrow> node list \<Rightarrow> node option" where
  "find_parent name cls parents = List.find (has_name_class name cls) parents"

text \<open>\<^verbatim>\<open>tag.find(name, class_=cls)\<close>: the first descendant that matches.\<close>

definition find_tag :: "pystr \<Rightarrow> pystr \<Rightarrow> node \<Rightarrow> node option" where
  "find_tag name cls t = List.find (has_name_class name cls) (map fst (descendants [] t))"

text \<open>\<^verbatim>\<open>s.strip()\<close>.\<close>

definition py_strip :: "pystr \<Rightarrow> pystr" where
  "py_strip s = rev (dropWhile uni_isspace (rev (dropWhile uni_isspace s)))"

text \<open>
  \<^verbatim>\<open>tag.get_text(separator=sep, strip=True)\<close>: the text nodes below the tag, each
  stripped, the empty ones dropped, joined by the separator.
\<close>

definition get_text :: "pystr \<Rightarrow> node \<Rightarrow> pystr" where
  "get_text sep t =
     py_join sep
       (filter (\<lambda>s. s \<noteq> [])
          (map py_strip
             (concat (map (\<lambda>(d, parents).
                             case d of
                               NavigableString s \<Rightarrow> [s]
                             | Tag name href cls kids \<Rightarrow> [])
                          (descendants [] t)))))"

section \<open>The environment: files, exceptions, log\<close>

datatype exn = UnicodeDecodeError | FileNotFoundError | OtherException pystr

text \<open>The records the program hands to \<^verbatim>\<open>logger\<close>, by message and arguments.\<close>

datatype log_record =
    DebugFailedToRead pystr pystr exn
  | WarningCouldNotRead pystr
  | InfoFoundFiles nat
  | ErrorFindingFiles exn
  | WarningNoFiles
  | ErrorProcessing pystr exn
  | InfoCompleted
  | InfoTotalImages nat

text \<open>
  What the program meets outside itself: the platform (for \<^verbatim>\<open>os.path\<close>), the result of
  the recursive \<^verbatim>\<open>glob\<close> for \<^verbatim>\<open>*.html\<close> under a directory, and the result of opening a
  file under an encoding and parsing it with BeautifulSoup. \<open>Inl\<close> is a raised exception.
\<close>

record env =
  platform :: os_name
  glob_html :: "pystr \<Rightarrow> exn + pystr list"
  open_soup :: "pystr \<Rightarrow> pystr \<Rightarrow> exn + node"

section \<open>The parser object\<close>

text \<open>
  \<^verbatim>\<open>photos_by_date\<close> is a \<^verbatim>\<open>defaultdict(list)\<close>: an association list in insertion order;
  \<^verbatim>\<open>all_links\<close> is a set. The log is kept with them so that one state is threaded.
\<close>

record parser =
  photos_by_date :: "(pystr \<times> pystr list) list"
  all_links :: "pystr set"
  log_records :: "log_record list"

definition ImageGalleryParser :: parser where
  "ImageGalleryParser = \<lparr> photos_by_date = [], all_links = {}, log_records = [] \<rparr>"

text \<open>\<^verbatim>\<open>d[k]\<close> on the \<^verbatim>\<open>defaultdict\<close>: the list of the key, the empty list for a new key.\<close>

definition bucket :: "(pystr \<times> pystr list) list \<Rightarrow> pystr \<Rightarrow> pystr list" where
  "bucket d k = (case map_of d k of None \<Rightarrow> [] | Some v \<Rightarrow> v)"

section \<open>Encoding-Resilient Reader\<close>

fun try_encodings :: "env \<Rightarrow> pystr \<Rightarrow> pystr list \<Rightarrow> log_record list \<times> (exn + node option)" where
  "try_encodings e file_path [] = ([WarningCouldNotRead file_path], Inr None)"
| "try_encodings e file_path (enc # encs) =
     (case open_soup e file_path enc of
        Inr soup \<Rightarrow> ([], Inr (Some soup))
      | Inl x \<Rightarrow>
          if x = UnicodeDecodeError \<or> x = FileNotFoundError
          then (case try_encodings e file_path encs of
                  (lg, r) \<Rightarrow> (DebugFailedToRead file_path enc x # lg, r))
          else ([], Inl x))"

definition read_file_with_encoding :: "env \<Rightarrow> pystr \<Rightarrow> log_record list \<times> (exn + node option)" where
  "read_file_with_encoding e file_path =
     try_encodings e file_path [ascii ''utf-8'', ascii ''windows-1251'', ascii ''cp1252'']"

section \<open>Document Processor\<close>

text \<open>
  The date of the message an anchor stands in: the nearest \<^verbatim>\<open>div.message\<close> ancestor, its
  first \<^verbatim>\<open>div.message__header\<close> descendant, the date of that header's text. Each of
  the four \<^verbatim>\<open>if\<close>s of the source that fails gives \<open>None\<close>.
\<close>

definition context_date :: "node list \<Rightarrow> pystr option" where
  "context_date parents =
     (case find_parent (ascii ''div'') (ascii ''message'') parents of
        None \<Rightarrow> None
      | Some message \<Rightarrow>
          (case find_tag (ascii ''div'') (ascii ''message__header'') message of
             None \<Rightarrow> None
           | Some header \<Rightarrow>
               (case extract_date (get_text (ascii '' '') header) of
                  None \<Rightarrow> None
                | Some date_key \<Rightarrow> if date_key = [] then None else Some date_key)))"

text \<open>One turn of the loop of \<^verbatim>\<open>process_html_file\<close>.\<close>

definition scan_link :: "os_name \<Rightarrow> config \<Rightarrow> parser \<Rightarrow> pystr \<times> node list \<Rightarrow> parser" where
  "scan_link pf cfg st link_tag =
     (case link_tag of
        (raw, parents) \<Rightarrow>
          if \<not> is_image_link pf cfg (py_strip raw) then st
          else (case context_date parents of
                  None \<Rightarrow> st\<lparr>all_links := insert (py_strip raw) (all_links st)\<rparr>
                | Some date_key \<Rightarrow>
                    st\<lparr>all_links := insert (py_strip raw) (all_links st),
                       photos_by_date :=
                         AList.update date_key
                           (bucket (photos_by_date st) date_key @ [py_strip raw])
                           (photos_by_date st)\<rparr>))"

text \<open>
  \<^verbatim>\<open>process_html_file\<close>: the state after the call, and the exception it raised if any.
  Only the reader can raise; the scan of a parsed document has no failing operation.
\<close>

definition process_html_file :: "env \<Rightarrow> config \<Rightarrow> parser \<Rightarrow> pystr \<Rightarrow> parser \<times> exn option" where
  "process_html_file e cfg st file_path =
     (case read_file_with_encoding e file_path of
        (lg, r) \<Rightarrow>
          (case r of
             Inl x \<Rightarrow> (st\<lparr>log_records := log_records st @ lg\<rparr>, Some x)
           | Inr None \<Rightarrow> (st\<lparr>log_records := log_records st @ lg\<rparr>, None)
           | Inr (Some soup) \<Rightarrow>
               (foldl (scan_link (platform e) cfg) (st\<lparr>log_records := log_records st @ lg\<rparr>)
                  (find_all_a_href soup), None)))"

section \<open>File Walker and Gallery Aggregator\<close>

definition find_html_files :: "env \<Rightarrow> config \<Rightarrow> log_record list \<times> pystr list" where
  "find_html_files e cfg =
     (case glob_html e (input_dir cfg) of
        Inr html_files \<Rightarrow> ([InfoFoundFiles (length html_files)], html_files)
      | Inl x \<Rightarrow> ([ErrorFindingFiles x], []))"

text \<open>The body of the loop of \<^verbatim>\<open>parse_files\<close>: \<^verbatim>\<open>try\<close> the file, log what it raises.\<close>

definition try_file :: "env \<Rightarrow> config \<Rightarrow> parser \<Rightarrow> pystr \<Rightarrow> parser" where
  "try_file e cfg st file_path =
     (case process_html_file e cfg st file_path of
        (st', None) \<Rightarrow> st'
      | (st', Some x) \<Rightarrow> st'\<lparr>log_records := log_records st' @ [ErrorProcessing file_path x]\<rparr>)"

definition sort_buckets :: "parser \<Rightarrow> parser" where
  "sort_buckets st =
     st\<lparr>photos_by_date := map (\<lambda>(date, links). (date, sort links)) (photos_by_date st)\<rparr>"

definition parse_files :: "env \<Rightarrow> config \<Rightarrow> parser \<Rightarrow> parser" where
  "parse_files e cfg st =
     (case find_html_files e cfg of
        (lg, html_files) \<Rightarrow>
          if html_files = []
          then st\<lparr>log_records := log_records st @ lg @ [WarningNoFiles]\<rparr>
          else (let st1 = foldl (try_file e cfg) (st\<lparr>log_records := log_records st @ lg\<rparr>) html_files;
                    st2 = sort_buckets st1
                in st2\<lparr>log_records :=
                         log_records st2 @ [InfoCompleted, InfoTotalImages (card (all_links st2))]\<rparr>))"

section \<open>Report Renderer\<close>

text \<open>\<^verbatim>\<open>str(n)\<close> for a length: the decimal digits.\<close>

fun py_str :: "nat \<Rightarrow> pystr" where
  "py_str n = (if n < 10 then [0x30 + n] else py_str (n div 10) @ [0x30 + n mod 10])"

declare py_str.simps [simp del]

text \<open>\<^verbatim>\<open>s.replace(c, r)\<close> for a single character, and \<^verbatim>\<open>html.escape(s, quote=True)\<close>.\<close>

definition py_replace :: "nat \<Rightarrow> pystr \<Rightarrow> pystr \<Rightarrow> pystr" where
  "py_replace c r s = concat (map (\<lambda>x. if x = c then r else [x]) s)"

definition html_escape :: "pystr \<Rightarrow> pystr" where
  "html_escape s =
     py_replace 0x27 (ascii ''&#x27;'')
       (py_replace 0x22 (ascii ''&quot;'')
          (py_replace 0x3E (ascii ''&gt;'')
             (py_replace 0x3C (ascii ''&lt;'')
                (py_replace 0x26 (ascii ''&amp;'') s))))"

text \<open>The fixed lines that open the document, before the statistics line.\<close>

definition preamble :: "pystr list" where
  \<open>preamble =
     [ascii ''<!DOCTYPE html>'',
      ascii ''<html lang="en">'',
      ascii ''<head>'',
      ascii ''    <meta charset="UTF-8">'',
      ascii ''    <meta name="viewport" content="width=device-width, initial-scale=1.0">'',
      ascii ''    <title>Image Gallery</title>'',
      ascii ''    <style>'',
      ascii ''        body { font-family: Arial, sans-serif; margin: 0; padding: 20px; background: #f9f9f9; }'',
      ascii ''        h1 { text-align: center; margin-bottom: 20px; color: #333; }'',
      ascii ''        h2 { margin-top: 40px; border-bottom: 2px solid #ccc; padding-bottom: 5px; color: #555; }'',
      ascii ''        .gallery { display: grid; gap: 20px; padding: 20px; }'',
      ascii ''        .stats { text-align: center; margin-bottom: 30px; color: #666; }'',
      ascii ''        @media (min-width: 1200px) { .gallery { grid-template-columns: repeat(12, 1fr); } }'',
      ascii ''        @media (min-width: 800px) and (max-width: 1199px) { .gallery { grid-template-columns: repeat(10, 1fr); } }'',
      ascii ''        @media (max-width: 799px) { .gallery { grid-template-columns: repeat(6, 1fr); } }'',
      ascii ''        .gallery a { position: relative; overflow: hidden; border-radius: 8px; transition: transform 0.3s; }'',
      ascii ''        .gallery a:hover { transform: scale(1.05); box-shadow: 0 4px 12px rgba(0,0,0,0.1); }'',
      ascii ''        .gallery img { width: 100%; height: auto; display: block; object-fit: cover; }'',
      ascii ''        .no-images { text-align: center; color: #888; margin-top: 50px; }'',
      ascii ''    </style>'',
      ascii ''</head>'',
      ascii ''<body>'',
      ascii ''    <h1>Image Gallery</h1>'']\<close>

definition stats_line :: "nat \<Rightarrow> pystr" where
  \<open>stats_line n = ascii ''    <div class="stats">Total images found: '' @ py_str n @ ascii ''</div>''\<close>

definition no_images_line :: pystr where
  \<open>no_images_line = ascii ''    <div class="no-images">No images found.</div>''\<close>

text \<open>\<^verbatim>\<open>'.'.join(reversed(date_key.split('.')))\<close>.\<close>

definition human_date :: "pystr \<Rightarrow> pystr" where
  "human_date date_key = py_join [0x2E] (rev (py_split 0x2E date_key))"

definition heading_line :: "pystr \<Rightarrow> nat \<Rightarrow> pystr" where
  "heading_line date_key image_count =
     ascii ''    <h2>'' @ human_date date_key @ ascii '' ('' @ py_str image_count @
     ascii '' images)</h2>''"

definition link_line :: "pystr \<Rightarrow> pystr" where
  \<open>link_line link =
     ascii ''        <a href="'' @ html_escape link @ ascii ''" target="_blank">'' @
     ascii ''<img src="'' @ html_escape link @ ascii ''" alt="Image" loading="lazy"></a>''\<close>

definition gallery_open_line :: pystr where
  \<open>gallery_open_line = ascii ''    <div class="gallery">''\<close>

definition gallery_close_line :: pystr where
  "gallery_close_line = ascii ''    </div>''"

text \<open>
  What one turn of the loop over the sorted dates adds to \<^verbatim>\<open>html_content\<close>: the heading,
  the opening of the gallery, a line for each link of the bucket in its order, the
  closing.
\<close>

definition add_date_section :: "parser \<Rightarrow> pystr list \<Rightarrow> pystr \<Rightarrow> pystr list" where
  "add_date_section st html_content date_key =
     (html_content @
        [heading_line date_key (length (bucket (photos_by_date st) date_key)),
         gallery_open_line]) @
     map link_line (bucket (photos_by_date st) date_key) @
     [gallery_close_line]"

text \<open>
  The lines that close the document; \<open>now\<close> is the text of
  \<^verbatim>\<open>datetime.now().strftime('%Y-%m-%d %H:%M:%S')\<close>.
\<close>

definition footer :: "pystr \<Rightarrow> pystr list" where
  \<open>footer now =
     [ascii ''    <footer style="text-align: center; margin-top: 50px; color: #999; font-size: 0.9em;">'',
      ascii ''        Generated on '' @ now,
      ascii ''    </footer>'',
      ascii ''</body>'',
      ascii ''</html>'']\<close>

definition generate_html_content :: "pystr \<Rightarrow> parser \<Rightarrow> pystr list" where
  "generate_html_content now st =
     (let html_content = preamble @ [stats_line (card (all_links st))];
          sorted_dates = sort (map fst (photos_by_date st));
          html_content =
            (if sorted_dates = [] then html_content @ [no_images_line]
             else foldl (add_date_section st) html_content sorted_dates)
      in html_content @ footer now)"

text \<open>
  The two calls of \<^verbatim>\<open>main\<close> on a fresh parser: parse, then render what was parsed. The
  write of the lines to the output file is left out.
\<close>

definition run :: "env \<Rightarrow> config \<Rightarrow> pystr \<Rightarrow> pystr list" where
  "run e cfg now = generate_html_content now (parse_files e cfg ImageGalleryParser)"

section \<open>What a file contributes\<close>

text \<open>
  The anchors of a document that the Link Classifier accepts, each as the stripped link
  and the date of its message (\<open>None\<close> when it has none), in document order; and the
  same for a file, which contributes nothing when the reader gives no document.
\<close>

definition link_events :: "os_name \<Rightarrow> config \<Rightarrow> (pystr \<times> node list) list \<Rightarrow> (pystr \<times> pystr option) list" where
  "link_events pf cfg tags =
     map (\<lambda>(raw, parents). (py_strip raw, context_date parents))
       (filter (\<lambda>(raw, parents). is_image_link pf cfg (py_strip raw)) tags)"

definition file_events :: "env \<Rightarrow> config \<Rightarrow> pystr \<Rightarrow> (pystr \<times> pystr option) list" where
  "file_events e cfg file_path =
     (case snd (read_file_with_encoding e file_path) of
        Inl x \<Rightarrow> []
      | Inr None \<Rightarrow> []
      | Inr (Some soup) \<Rightarrow> link_events (platform e) cfg (find_all_a_href soup))"

text \<open>The links of the events that carry a given date.\<close>

definition dated :: "pystr \<Rightarrow> (pystr \<times> pystr option) list \<Rightarrow> pystr list" where
  "dated k evs = map fst (filter (\<lambda>(link, d). d = Some k) evs)"

text \<open>All links held in buckets.\<close>

definition bucket_links :: "parser \<Rightarrow> pystr set" where
  "bucket_links st = \<Union> (set ` snd ` set (photos_by_date st))"

text \<open>Two states with the same index and the same link set (their logs may differ).\<close>

definition same_data :: "parser \<Rightarrow> parser \<Rightarrow> bool" where
  "same_data st st' \<longleftrightarrow>
     photos_by_date st = photos_by_date st' \<and> all_links st = all_links st'"

text \<open>A file whose processing fails: the reader raises, or gives no document.\<close>

definition file_fails :: "env \<Rightarrow> pystr \<Rightarrow> bool" where
  "file_fails e file_path =
     (case snd (read_file_with_encoding e file_path) of
        Inl x \<Rightarrow> True
      | Inr None \<Rightarrow> True
      | Inr (Some soup) \<Rightarrow> False)"

text \<open>The records one turn of the loop of \<^verbatim>\<open>parse_files\<close> adds to the log.\<close>

definition file_log :: "env \<Rightarrow> pystr \<Rightarrow> log_record list" where
  "file_log e file_path =
     fst (read_file_with_encoding e file_path) @
     (case snd (read_file_with_encoding e file_path) of
        Inl x \<Rightarrow> [ErrorProcessing file_path x]
      | Inr d \<Rightarrow> [])"

section \<open>An example export\<close>

text \<open>
  A document with two messages, dated 15 January 2024 and 16 February 2024, that both
  link the same image; the first also links a PDF, the second a second image; a third
  image stands outside any message. And an environment with two files: one that cannot be opened (the reader
  raises an exception that is neither of the two it handles), and this document.
\<close>

definition example_message :: "pystr \<Rightarrow> node list \<Rightarrow> node" where
  "example_message header_text links =
     Tag (ascii ''div'') None [ascii ''message'', ascii ''default'']
       (Tag (ascii ''div'') None [ascii ''message__header'']
          [Tag (ascii ''a'') None [] [NavigableString (ascii ''  Ann '')],
           NavigableString header_text]
        # links)"

definition example_msg1 :: node where
  "example_msg1 =
     example_message (ascii ''at 15 '' @ [0x44F, 0x43D, 0x432] @ ascii '' 2024 '')
       [Tag (ascii ''a'') (Some (ascii '' a.jpg '')) [] [],
        Tag (ascii ''a'') (Some (ascii ''doc.pdf'')) [] []]"

definition example_msg2 :: node where
  "example_msg2 =
     example_message (ascii ''16 '' @ [0x444, 0x435, 0x432] @ ascii '' 2024'')
       [Tag (ascii ''a'') (Some (ascii ''a.jpg'')) [] [],
        Tag (ascii ''a'') (Some (ascii ''c.gif'')) [] []]"

definition example_soup :: node where
  "example_soup =
     Tag (ascii ''[document]'') None []
       [example_msg1, example_msg2, Tag (ascii ''a'') (Some (ascii ''b.PNG?x=1'')) [] []]"

definition example_env :: env where
  "example_env =
     \<lparr> platform = Posix,
       glob_html = (\<lambda>d. Inr [ascii ''bad.html'', ascii ''m.html'']),
       open_soup = (\<lambda>file_path enc.
          if file_path = ascii ''m.html'' then Inr example_soup
          else Inl (OtherException (ascii ''Permission denied''))) \<rparr>"

text \<open>A time of rendering, as \<^verbatim>\<open>strftime\<close> writes it.\<close>

definition example_now :: pystr where
  "example_now = ascii ''2024-03-01 12:00:00''"

section \<open>Properties of the Link Classifier\<close>

lemma py_split_not_Nil: "py_split sep s \<noteq> []"
  by (induction s) (auto split: list.splits)

lemma hd_py_split: "hd (py_split sep s) = takeWhile (\<lambda>c. c \<noteq> sep) s"
proof (induction s)
  case Nil
  show ?case by simp
next
  case (Cons c cs)
  show ?case
  proof (cases "c = sep")
    case True
    then show ?thesis by simp
  next
    case False
    obtain p ps where ps: "py_split sep cs = p # ps"
      using py_split_not_Nil [of sep cs] by (cases "py_split sep cs") auto
    with Cons False show ?thesis by simp
  qed
qed

lemma py_lower_ascii_upper_jpg: "py_lower (ascii ''.JPG'') = ascii ''.jpg''"
  by (simp add: py_lower_def uni_tolower_def ascii_def)

lemma splitext_photo:
  "os_path_splitext os (ascii ''photo.JPG'') = (ascii ''photo'', ascii ''.JPG'')"
  by (cases os)
     (simp_all add: os_path_splitext_def splitext_generic_def py_rfind_def ascii_def
        upt_rec [of 0] Let_def)


lemma default_extensions:
  "set (image_extensions (Config d e out None)) =
     {ascii ''.jpg'', ascii ''.jpeg'', ascii ''.png'', ascii ''.gif'',
      ascii ''.bmp'', ascii ''.webp'', ascii ''.svg''}"
  by (simp add: Config_def)

lemma is_image_link_photo:
  "is_image_link os (Config d e out None) (ascii ''photo.JPG?size=large'')"
proof -
  have "takeWhile (\<lambda>c. c \<noteq> 0x3F) (ascii ''photo.JPG?size=large'') = ascii ''photo.JPG''"
    by (simp add: ascii_def)
  then have "is_image_link os (Config d e out None) (ascii ''photo.JPG?size=large'') \<longleftrightarrow>
      ascii ''.jpg'' \<in> set (image_extensions (Config d e out None))"
    by (simp only: is_image_link_def Let_def hd_py_split splitext_photo snd_conv
        py_lower_ascii_upper_jpg)
  then show ?thesis
    by (simp add: default_extensions)
qed

lemma splitext_doc:
  "os_path_splitext os (ascii ''doc.pdf'') = (ascii ''doc'', ascii ''.pdf'')"
  by (cases os)
     (simp_all add: os_path_splitext_def splitext_generic_def py_rfind_def ascii_def
        upt_rec [of 0] Let_def)

lemma is_image_link_doc:
  "\<not> is_image_link os (Config d e out None) (ascii ''doc.pdf'')"
proof -
  have "takeWhile (\<lambda>c. c \<noteq> 0x3F) (ascii ''doc.pdf'') = ascii ''doc.pdf''"
    by (simp add: ascii_def)
  moreover have "py_lower (ascii ''.pdf'') = ascii ''.pdf''"
    by (simp add: py_lower_def uni_tolower_def ascii_def)
  ultimately have "is_image_link os (Config d e out None) (ascii ''doc.pdf'') \<longleftrightarrow>
      ascii ''.pdf'' \<in> set (image_extensions (Config d e out None))"
    by (simp only: is_image_link_def Let_def hd_py_split splitext_doc snd_conv)
  then show ?thesis
    by (simp add: default_extensions ascii_def)
qed

text \<open>
  Claim C1. The Link Classifier accepts a link exactly when the lowercased extension of
  the link cut before its first question mark is in the configured list; with the
  default configuration that list is .jpg .jpeg .png .gif .bmp .webp .svg. The link
  photo.JPG?size=large is accepted and doc.pdf is rejected. The extension is the one
  \<^verbatim>\<open>os.path.splitext\<close> gives, on either platform.
\<close>

theorem C1_is_image_link:
  "(is_image_link os cfg href \<longleftrightarrow>
      py_lower (snd (os_path_splitext os (takeWhile (\<lambda>c. c \<noteq> 0x3F) href)))
        \<in> set (image_extensions cfg)) \<and>
   (is_image_link os (Config d e out None) href \<longleftrightarrow>
      py_lower (snd (os_path_splitext os (takeWhile (\<lambda>c. c \<noteq> 0x3F) href)))
        \<in> {ascii ''.jpg'', ascii ''.jpeg'', ascii ''.png'', ascii ''.gif'',
            ascii ''.bmp'', ascii ''.webp'', ascii ''.svg''}) \<and>
   is_image_link os (Config d e out None) (ascii ''photo.JPG?size=large'') \<and>
   \<not> is_image_link os (Config d e out None) (ascii ''doc.pdf'')"
proof -
  have general: "\<And>c. is_image_link os c href \<longleftrightarrow>
      py_lower (snd (os_path_splitext os (takeWhile (\<lambda>c. c \<noteq> 0x3F) href)))
        \<in> set (image_extensions c)"
    by (simp add: is_image_link_def Let_def hd_py_split)
  show ?thesis
    using general [of cfg] general [of "Config d e out None"]
      is_image_link_photo [of os d e out] is_image_link_doc [of os d e out]
    unfolding default_extensions by blast
qed

theorem C1_is_image_link_witness:
  "is_image_link Posix (Config [] [] [] None) (ascii ''a.b/pic.PnG?x=y.txt'') \<and>
   \<not> is_image_link Posix (Config [] [] [] None) (ascii ''dir/.png'')"
proof -
  have t1: "takeWhile (\<lambda>c. c \<noteq> 0x3F) (ascii ''a.b/pic.PnG?x=y.txt'') = ascii ''a.b/pic.PnG''"
    by (simp add: ascii_def)
  have s1: "os_path_splitext Posix (ascii ''a.b/pic.PnG'') = (ascii ''a.b/pic'', ascii ''.PnG'')"
    by (simp add: os_path_splitext_def splitext_generic_def py_rfind_def ascii_def
        upt_rec [of 0] Let_def)
  have l1: "py_lower (ascii ''.PnG'') = ascii ''.png''"
    by (simp add: py_lower_def uni_tolower_def ascii_def)
  have t2: "takeWhile (\<lambda>c. c \<noteq> 0x3F) (ascii ''dir/.png'') = ascii ''dir/.png''"
    by (simp add: ascii_def)
  have s2: "os_path_splitext Posix (ascii ''dir/.png'') = (ascii ''dir/.png'', [])"
    by (simp add: os_path_splitext_def splitext_generic_def py_rfind_def ascii_def
        upt_rec [of 0] Let_def)
  have l2: "py_lower [] = []"
    by (simp add: py_lower_def)
  have a: "is_image_link Posix (Config [] [] [] None) (ascii ''a.b/pic.PnG?x=y.txt'')"
    using C1_is_image_link [of Posix "Config [] [] [] None" "ascii ''a.b/pic.PnG?x=y.txt''" "[]" "[]" "[]"]
    by (simp only: t1 s1 snd_conv l1) (simp add: default_extensions)
  have b: "\<not> is_image_link Posix (Config [] [] [] None) (ascii ''dir/.png'')"
    using C1_is_image_link [of Posix "Config [] [] [] None" "ascii ''dir/.png''" "[]" "[]" "[]"]
    by (simp only: t2 s2 snd_conv l2) (simp add: default_extensions ascii_def)
  from a b show ?thesis by simp
qed
section \<open>Properties of the Date Extractor\<close>

subsection \<open>What a match is\<close>

lemma match_tail_SomeD:
  assumes "match_tail s = Some (mon, year)"
  shows "\<exists>s1 s2 rest. s = s1 # mon @ s2 # year @ rest \<and> uni_isspace s1 \<and> uni_isspace s2 \<and>
           length mon = 3 \<and> list_all in_month_class mon \<and>
           length year = 4 \<and> list_all uni_isdecimal year"
  using assms by (cases s rule: match_tail.cases) (auto split: if_splits)

lemma match_day_SomeD:
  assumes "match_day n s = Some (day, mon, year)"
  shows "\<exists>s1 s2 rest. s = day @ s1 # mon @ s2 # year @ rest \<and> uni_isspace s1 \<and> uni_isspace s2 \<and>
           length day = n \<and> list_all uni_isdecimal day \<and>
           length mon = 3 \<and> list_all in_month_class mon \<and>
           length year = 4 \<and> list_all uni_isdecimal year"
proof -
  have c: "n \<le> length s \<and> list_all uni_isdecimal (take n s)"
    using assms unfolding match_day_def by (simp split: if_splits)
  with assms have "(case match_tail (drop n s) of None \<Rightarrow> None
      | Some (mon, year) \<Rightarrow> Some (take n s, mon, year)) = Some (day, mon, year)"
    unfolding match_day_def by simp
  then have t: "match_tail (drop n s) = Some (mon, year)" and day: "take n s = day"
    by (simp_all split: option.splits prod.splits)
  from match_tail_SomeD [OF t] obtain s1 s2 rest where
    r: "drop n s = s1 # mon @ s2 # year @ rest" and sp: "uni_isspace s1" "uni_isspace s2"
      and m: "length mon = 3" "list_all in_month_class mon"
      and y: "length year = 4" "list_all uni_isdecimal year"
    by blast
  have "take n s @ drop n s = s" by (rule append_take_drop_id)
  then have eq: "s = day @ s1 # mon @ s2 # year @ rest"
    unfolding day r by (rule sym)
  have len: "length day = n"
    using c day by (metis length_take min.absorb2)
  have dec: "list_all uni_isdecimal day"
    using c unfolding day by blast
  from eq sp len dec m y show ?thesis by blast
qed

lemma match_here_SomeD:
  assumes "match_here s = Some (day, mon, year)"
  shows "\<exists>s1 s2 rest. s = day @ s1 # mon @ s2 # year @ rest \<and> uni_isspace s1 \<and> uni_isspace s2 \<and>
           (length day = 1 \<or> length day = 2) \<and> list_all uni_isdecimal day \<and>
           length mon = 3 \<and> list_all in_month_class mon \<and>
           length year = 4 \<and> list_all uni_isdecimal year"
proof (cases "match_day 2 s")
  case None
  with assms have "match_day 1 s = Some (day, mon, year)"
    by (simp add: match_here_def)
  from match_day_SomeD [OF this] show ?thesis by blast
next
  case (Some g)
  with assms have "match_day 2 s = Some (day, mon, year)"
    by (simp add: match_here_def)
  from match_day_SomeD [OF this] show ?thesis by blast
qed

subsection \<open>The search returns the leftmost match\<close>

lemma search_first:
  assumes "match_here s = Some g"
    and "\<forall>k<length pre. match_here (drop k (pre @ s)) = None"
  shows "DATE_PATTERN_search (pre @ s) = Some g"
  using assms
proof (induction pre)
  case Nil
  then show ?case by (cases s) simp_all
next
  case (Cons c pre)
  from Cons.prems(2) have "match_here (drop 0 ((c # pre) @ s)) = None"
    by (metis length_greater_0_conv list.distinct(1))
  then have here: "match_here (c # pre @ s) = None" by simp
  have "\<forall>k<length pre. match_here (drop k (pre @ s)) = None"
  proof (intro allI impI)
    fix k assume "k < length pre"
    then have "Suc k < length (c # pre)" by simp
    with Cons.prems(2) have "match_here (drop (Suc k) ((c # pre) @ s)) = None" by blast
    then show "match_here (drop k (pre @ s)) = None" by simp
  qed
  with Cons.IH [OF Cons.prems(1)] have "DATE_PATTERN_search (pre @ s) = Some g" by blast
  with here show ?case by simp
qed

lemma search_None_iff:
  "DATE_PATTERN_search t = None \<longleftrightarrow> (\<forall>k\<le>length t. match_here (drop k t) = None)"
proof (induction t)
  case Nil
  show ?case by simp
next
  case (Cons c cs)
  have "(\<forall>k\<le>length (c # cs). match_here (drop k (c # cs)) = None) \<longleftrightarrow>
        match_here (c # cs) = None \<and> (\<forall>k\<le>length cs. match_here (drop k cs) = None)"
  proof
    assume a: "\<forall>k\<le>length (c # cs). match_here (drop k (c # cs)) = None"
    then have "match_here (drop 0 (c # cs)) = None" by blast
    moreover have "\<forall>k\<le>length cs. match_here (drop k cs) = None"
    proof (intro allI impI)
      fix k assume "k \<le> length cs"
      then have "Suc k \<le> length (c # cs)" by simp
      with a have "match_here (drop (Suc k) (c # cs)) = None" by blast
      then show "match_here (drop k cs) = None" by simp
    qed
    ultimately show "match_here (c # cs) = None \<and> (\<forall>k\<le>length cs. match_here (drop k cs) = None)"
      by simp
  next
    assume b: "match_here (c # cs) = None \<and> (\<forall>k\<le>length cs. match_here (drop k cs) = None)"
    show "\<forall>k\<le>length (c # cs). match_here (drop k (c # cs)) = None"
    proof (intro allI impI)
      fix k assume "k \<le> length (c # cs)"
      then show "match_here (drop k (c # cs)) = None"
        using b by (cases k) simp_all
    qed
  qed
  with Cons.IH show ?case by (simp split: option.splits)
qed

lemma search_SomeD:
  assumes "DATE_PATTERN_search t = Some g"
  shows "\<exists>pre s. t = pre @ s \<and> match_here s = Some g \<and>
           (\<forall>k<length pre. match_here (drop k t) = None)"
  using assms
proof (induction t)
  case Nil
  then have "([]::pystr) = [] @ [] \<and> match_here [] = Some g \<and>
      (\<forall>k<length ([]::pystr). match_here (drop k []) = None)" by simp
  then show ?case by blast
next
  case (Cons c cs)
  show ?case
  proof (cases "match_here (c # cs)")
    case (Some h)
    with Cons.prems have "c # cs = [] @ (c # cs) \<and> match_here (c # cs) = Some g \<and>
      (\<forall>k<length ([]::pystr). match_here (drop k (c # cs)) = None)" by simp
    then show ?thesis by blast
  next
    case None
    with Cons.prems have "DATE_PATTERN_search cs = Some g" by simp
    from Cons.IH [OF this] obtain pre s where
      p: "cs = pre @ s" "match_here s = Some g" "\<forall>k<length pre. match_here (drop k cs) = None"
      by blast
    have "\<forall>k<length (c # pre). match_here (drop k (c # cs)) = None"
    proof (intro allI impI)
      fix k assume "k < length (c # pre)"
      then show "match_here (drop k (c # cs)) = None"
        using None p(3) by (cases k) simp_all
    qed
    with p have "c # cs = (c # pre) @ s \<and> match_here s = Some g \<and>
      (\<forall>k<length (c # pre). match_here (drop k (c # cs)) = None)" by simp
    then show ?thesis by blast
  qed
qed

subsection \<open>The month table and the padding\<close>

lemma MONTHS_values:
  assumes "map_of MONTHS k = Some mm"
  shows "mm \<in> {ascii ''01'', ascii ''02'', ascii ''03'', ascii ''04'', ascii ''05'', ascii ''06'',
               ascii ''07'', ascii ''08'', ascii ''09'', ascii ''10'', ascii ''11'', ascii ''12''}"
proof -
  from assms have "(k, mm) \<in> set MONTHS" by (rule map_of_SomeD)
  then show ?thesis unfolding MONTHS_def by auto
qed

lemma MONTHS_shape:
  assumes "map_of MONTHS k = Some mm"
  shows "length mm = 2 \<and> ascii_digits mm \<and> py_zfill 2 mm = mm"
  using MONTHS_values [OF assms]
  by (auto simp: ascii_def ascii_digits_def py_zfill_def)

lemma not_decimal_sign: "\<not> uni_isdecimal 0x2B" "\<not> uni_isdecimal 0x2D" "\<not> uni_isdecimal 0x2E"
  by (simp_all add: uni_isdecimal_def decimal_zeros_def)

lemma zfill_day:
  assumes "list_all uni_isdecimal day" and "length day = 1 \<or> length day = 2"
  shows "py_zfill 2 day = (if length day = 1 then 0x30 # day else day)"
proof (cases "length day = 1")
  case True
  then obtain c where c: "day = [c]" by (cases day) auto
  with assms(1) have "uni_isdecimal c" by simp
  with not_decimal_sign have "c \<noteq> 0x2B" "c \<noteq> 0x2D" by auto
  with c show ?thesis by (simp add: py_zfill_def)
next
  case False
  with assms(2) show ?thesis by (simp add: py_zfill_def)
qed

lemma extract_date_result:
  assumes s: "DATE_PATTERN_search text = Some (day, mon, year)"
    and m: "map_of MONTHS (py_lower (take 3 mon)) = Some mm"
  shows "extract_date text =
           Some (year @ [0x2E] @ mm @ [0x2E] @ (if length day = 1 then 0x30 # day else day))"
proof -
  from search_SomeD [OF s] obtain r where "match_here r = Some (day, mon, year)" by blast
  from match_here_SomeD [OF this] have d: "list_all uni_isdecimal day"
    "length day = 1 \<or> length day = 2" by blast+
  from MONTHS_shape [OF m] have "mm \<noteq> []" "py_zfill 2 mm = mm" by auto
  with s m zfill_day [OF d] show ?thesis
    by (simp add: extract_date_def)
qed

lemma extract_date_None_iff:
  "extract_date text = None \<longleftrightarrow>
     (case DATE_PATTERN_search text of
        None \<Rightarrow> True
      | Some (day, mon, year) \<Rightarrow> map_of MONTHS (py_lower (take 3 mon)) = None)"
proof (cases "DATE_PATTERN_search text")
  case None
  then show ?thesis by (simp add: extract_date_def)
next
  case (Some g)
  obtain day mon year where g: "g = (day, mon, year)" by (cases g) auto
  show ?thesis
  proof (cases "map_of MONTHS (py_lower (take 3 mon))")
    case None
    with Some g show ?thesis by (simp add: extract_date_def)
  next
    case m: (Some mm)
    from Some g have s: "DATE_PATTERN_search text = Some (day, mon, year)" by simp
    from extract_date_result [OF s m] s m show ?thesis by simp
  qed
qed

lemma extract_date_first_match:
  assumes "match_here s = Some (day, mon, year)"
    and "\<forall>k<length pre. match_here (drop k (pre @ s)) = None"
  shows "extract_date (pre @ s) =
           (case map_of MONTHS (py_lower (take 3 mon)) of
              None \<Rightarrow> None
            | Some mm \<Rightarrow> Some (year @ [0x2E] @ mm @ [0x2E] @ py_zfill 2 day))"
proof -
  have s: "DATE_PATTERN_search (pre @ s) = Some (day, mon, year)"
    using assms by (rule search_first)
  show ?thesis
  proof (cases "map_of MONTHS (py_lower (take 3 mon))")
    case None
    with s show ?thesis by (simp add: extract_date_def)
  next
    case (Some mm)
    from MONTHS_shape [OF Some] have "mm \<noteq> []" "py_zfill 2 mm = mm" by auto
    with s Some show ?thesis by (simp add: extract_date_def)
  qed
qed

subsection \<open>Evaluating the matcher on concrete text\<close>

lemmas matcher_eval =
  match_here_def match_day_def uni_isdecimal_def decimal_zeros_def uni_isspace_def
  in_month_class_def uni_tolower_def ascii_def

lemmas date_eval =
  extract_date_def matcher_eval py_lower_def MONTHS_def py_zfill_def

lemma match_here_15_jan_2024:
  "match_here (ascii ''15 '' @ [0x44F, 0x43D, 0x432] @ ascii '' 2024'' @ post) =
     Some (ascii ''15'', [0x44F, 0x43D, 0x432], ascii ''2024'')"
  by (simp add: matcher_eval)

lemma month_jan: "map_of MONTHS (py_lower (take 3 [0x44F, 0x43D, 0x432])) = Some (ascii ''01'')"
  by (simp add: MONTHS_def py_lower_def uni_tolower_def ascii_def)

lemma extract_date_15_jan_2024:
  assumes "\<forall>k<length pre.
     match_here (drop k (pre @ ascii ''15 '' @ [0x44F, 0x43D, 0x432] @ ascii '' 2024'' @ post)) = None"
  shows "extract_date (pre @ ascii ''15 '' @ [0x44F, 0x43D, 0x432] @ ascii '' 2024'' @ post) =
     Some (ascii ''2024.01.15'')"
proof -
  have "extract_date (pre @ ascii ''15 '' @ [0x44F, 0x43D, 0x432] @ ascii '' 2024'' @ post) =
     Some (ascii ''2024'' @ [0x2E] @ ascii ''01'' @ [0x2E] @ py_zfill 2 (ascii ''15''))"
    using extract_date_first_match [OF match_here_15_jan_2024 assms]
    by (simp only: month_jan option.case)
  then show ?thesis by (simp add: py_zfill_def ascii_def)
qed

lemma extract_date_two_dates:
  "extract_date (ascii ''3 '' @ [0x43C, 0x430, 0x440] @ ascii '' 2020, '' @
                 (ascii ''15 '' @ [0x44F, 0x43D, 0x432] @ ascii '' 2024'')) =
     Some (ascii ''2020.03.03'')"
  by (simp add: date_eval)

subsection \<open>Claims about the Date Extractor\<close>

text \<open>
  Claim C2, as the code has it. When the first match of the pattern in a text carries a
  month token whose first three characters, lowercased, are a key of the month table,
  \<open>extract_date\<close> returns the year, the two-digit month of the table and the day padded
  to two digits, joined by periods. A text in which ``15 <U+044F U+043D U+0432> 2024''
  is the first match yields 2024.01.15; a text that merely contains it need not, since
  only the first match counts.
\<close>

theorem C2_extract_date_normalized:
  "(DATE_PATTERN_search text = Some (day, mon, year) \<and>
    map_of MONTHS (py_lower (take 3 mon)) = Some mm \<longrightarrow>
      extract_date text =
        Some (year @ [0x2E] @ mm @ [0x2E] @ (if length day = 1 then 0x30 # day else day)) \<and>
      length year = 4 \<and> length mm = 2 \<and> (length day = 1 \<or> length day = 2)) \<and>
   ((\<forall>k<length pre.
       match_here
         (drop k (pre @ ascii ''15 '' @ [0x44F, 0x43D, 0x432] @ ascii '' 2024'' @ post)) = None) \<longrightarrow>
      extract_date (pre @ ascii ''15 '' @ [0x44F, 0x43D, 0x432] @ ascii '' 2024'' @ post) =
        Some (ascii ''2024.01.15''))"
proof (rule conjI)
  show "DATE_PATTERN_search text = Some (day, mon, year) \<and>
    map_of MONTHS (py_lower (take 3 mon)) = Some mm \<longrightarrow>
      extract_date text =
        Some (year @ [0x2E] @ mm @ [0x2E] @ (if length day = 1 then 0x30 # day else day)) \<and>
      length year = 4 \<and> length mm = 2 \<and> (length day = 1 \<or> length day = 2)"
  proof (rule impI)
    assume a: "DATE_PATTERN_search text = Some (day, mon, year) \<and>
      map_of MONTHS (py_lower (take 3 mon)) = Some mm"
    then have s: "DATE_PATTERN_search text = Some (day, mon, year)"
      and m: "map_of MONTHS (py_lower (take 3 mon)) = Some mm" by blast+
    from search_SomeD [OF s] obtain r where "match_here r = Some (day, mon, year)" by blast
    from match_here_SomeD [OF this] have "length year = 4" "length day = 1 \<or> length day = 2"
      by blast+
    with extract_date_result [OF s m] MONTHS_shape [OF m]
    show "extract_date text =
          Some (year @ [0x2E] @ mm @ [0x2E] @ (if length day = 1 then 0x30 # day else day)) \<and>
        length year = 4 \<and> length mm = 2 \<and> (length day = 1 \<or> length day = 2)"
      by blast
  qed
next
  show "(\<forall>k<length pre.
       match_here
         (drop k (pre @ ascii ''15 '' @ [0x44F, 0x43D, 0x432] @ ascii '' 2024'' @ post)) = None) \<longrightarrow>
      extract_date (pre @ ascii ''15 '' @ [0x44F, 0x43D, 0x432] @ ascii '' 2024'' @ post) =
        Some (ascii ''2024.01.15'')"
    using extract_date_15_jan_2024 by blast
qed

theorem C2_extract_date_normalized_witness:
  "extract_date (ascii ''on 7 '' @ [0x414, 0x415, 0x41A] @ ascii '' 1999 at noon'') =
     Some (ascii ''1999.12.07'') \<and>
   extract_date (ascii ''at '' @ ascii ''15 '' @ [0x44F, 0x43D, 0x432] @ ascii '' 2024'' @
                 ascii '', 16 '' @ [0x444, 0x435, 0x432] @ ascii '' 2025'') =
     Some (ascii ''2024.01.15'')"
proof -
  have s: "DATE_PATTERN_search (ascii ''on 7 '' @ [0x414, 0x415, 0x41A] @ ascii '' 1999 at noon'') =
      Some (ascii ''7'', [0x414, 0x415, 0x41A], ascii ''1999'')"
    by (simp add: matcher_eval)
  have m: "map_of MONTHS (py_lower (take 3 [0x414, 0x415, 0x41A])) = Some (ascii ''12'')"
    by (simp add: MONTHS_def py_lower_def uni_tolower_def ascii_def)
  have none: "\<forall>k<length (ascii ''at '').
       match_here (drop k (ascii ''at '' @ ascii ''15 '' @ [0x44F, 0x43D, 0x432] @ ascii '' 2024'' @
         ascii '', 16 '' @ [0x444, 0x435, 0x432] @ ascii '' 2025'')) = None"
  proof (intro allI impI)
    fix k assume "k < length (ascii ''at '')"
    then have "k = 0 \<or> k = 1 \<or> k = 2" by (auto simp: ascii_def)
    then show "match_here (drop k (ascii ''at '' @ ascii ''15 '' @ [0x44F, 0x43D, 0x432] @
         ascii '' 2024'' @ ascii '', 16 '' @ [0x444, 0x435, 0x432] @ ascii '' 2025'')) = None"
      by (elim disjE) (simp_all add: matcher_eval)
  qed
  have a: "extract_date (ascii ''on 7 '' @ [0x414, 0x415, 0x41A] @ ascii '' 1999 at noon'') =
     Some (ascii ''1999.12.07'')"
    using C2_extract_date_normalized
      [of "ascii ''on 7 '' @ [0x414, 0x415, 0x41A] @ ascii '' 1999 at noon''"
          "ascii ''7''" "[0x414, 0x415, 0x41A]" "ascii ''1999''" "ascii ''12''"] s m
    by (simp add: ascii_def)
  have b: "extract_date (ascii ''at '' @ ascii ''15 '' @ [0x44F, 0x43D, 0x432] @ ascii '' 2024'' @
                 ascii '', 16 '' @ [0x444, 0x435, 0x432] @ ascii '' 2025'') =
     Some (ascii ''2024.01.15'')"
    using C2_extract_date_normalized
      [of _ _ _ _ _ "ascii ''at ''" "ascii '', 16 '' @ [0x444, 0x435, 0x432] @ ascii '' 2025''"]
      none
    by blast
  from a b show ?thesis by (rule conjI)
qed

text \<open>
  The claim as stated fails: the text below contains ``15 <U+044F U+043D U+0432> 2024''
  after an earlier date (3 March 2020), and the result is the earlier one.
\<close>

theorem C2_contains_counterexample:
  "extract_date (ascii ''3 '' @ [0x43C, 0x430, 0x440] @ ascii '' 2020, '' @
                 (ascii ''15 '' @ [0x44F, 0x43D, 0x432] @ ascii '' 2024'')) =
     Some (ascii ''2020.03.03'') \<and>
   extract_date (ascii ''3 '' @ [0x43C, 0x430, 0x440] @ ascii '' 2020, '' @
                 (ascii ''15 '' @ [0x44F, 0x43D, 0x432] @ ascii '' 2024'')) \<noteq>
     Some (ascii ''2024.01.15'')"
proof -
  have "ascii ''2020.03.03'' \<noteq> ascii ''2024.01.15''" by (simp add: ascii_def)
  with extract_date_two_dates show ?thesis by simp
qed

text \<open>
  Claim C3. \<open>extract_date\<close> returns \<open>None\<close> exactly when the text has no match of the
  pattern or the month of its first match is not a key of the table; in particular a
  text no position of which matches gives \<open>None\<close>. The result is a function of the groups
  of the leftmost match alone: whatever follows that match, later matches included, does
  not enter it. The function has no failure value: it returns for every text.
\<close>

theorem C3_extract_date_none:
  "(extract_date text = None \<longleftrightarrow>
      (case DATE_PATTERN_search text of
         None \<Rightarrow> True
       | Some (day, mon, year) \<Rightarrow> map_of MONTHS (py_lower (take 3 mon)) = None)) \<and>
   ((\<forall>k\<le>length text. match_here (drop k text) = None) \<longrightarrow> extract_date text = None) \<and>
   (match_here s = Some (d, m, y) \<and> (\<forall>k<length pre. match_here (drop k (pre @ s)) = None) \<longrightarrow>
      extract_date (pre @ s) =
        (case map_of MONTHS (py_lower (take 3 m)) of
           None \<Rightarrow> None
         | Some mm \<Rightarrow> Some (y @ [0x2E] @ mm @ [0x2E] @ py_zfill 2 d)))"
proof (intro conjI impI)
  show "extract_date text = None \<longleftrightarrow>
      (case DATE_PATTERN_search text of
         None \<Rightarrow> True
       | Some (day, mon, year) \<Rightarrow> map_of MONTHS (py_lower (take 3 mon)) = None)"
    by (rule extract_date_None_iff)
next
  assume "\<forall>k\<le>length text. match_here (drop k text) = None"
  then have "DATE_PATTERN_search text = None" by (simp only: search_None_iff)
  then show "extract_date text = None" by (simp add: extract_date_def)
next
  assume "match_here s = Some (d, m, y) \<and> (\<forall>k<length pre. match_here (drop k (pre @ s)) = None)"
  then show "extract_date (pre @ s) =
        (case map_of MONTHS (py_lower (take 3 m)) of
           None \<Rightarrow> None
         | Some mm \<Rightarrow> Some (y @ [0x2E] @ mm @ [0x2E] @ py_zfill 2 d))"
    using extract_date_first_match by blast
qed

theorem C3_extract_date_none_witness:
  "extract_date (ascii ''15  '' @ [0x44F, 0x43D, 0x432] @ ascii '' 2024'') = None \<and>
   extract_date (ascii ''1 '' @ [0x430, 0x431, 0x432] @ ascii '' 2000 '' @
                 ascii ''15 '' @ [0x44F, 0x43D, 0x432] @ ascii '' 2024'') = None"
proof -
  have s1: "DATE_PATTERN_search (ascii ''15  '' @ [0x44F, 0x43D, 0x432] @ ascii '' 2024'') = None"
    by (simp add: matcher_eval)
  have a: "extract_date (ascii ''15  '' @ [0x44F, 0x43D, 0x432] @ ascii '' 2024'') = None"
    using C3_extract_date_none [of "ascii ''15  '' @ [0x44F, 0x43D, 0x432] @ ascii '' 2024''"] s1
    by simp
  have m: "match_here (ascii ''1 '' @ [0x430, 0x431, 0x432] @ ascii '' 2000 '' @
                 ascii ''15 '' @ [0x44F, 0x43D, 0x432] @ ascii '' 2024'') =
      Some (ascii ''1'', [0x430, 0x431, 0x432], ascii ''2000'')"
    by (simp add: matcher_eval)
  have t: "map_of MONTHS (py_lower (take 3 [0x430, 0x431, 0x432])) = None"
    by (simp add: MONTHS_def py_lower_def uni_tolower_def ascii_def)
  have "extract_date ([] @ ascii ''1 '' @ [0x430, 0x431, 0x432] @ ascii '' 2000 '' @
                 ascii ''15 '' @ [0x44F, 0x43D, 0x432] @ ascii '' 2024'') =
      (case map_of MONTHS (py_lower (take 3 [0x430, 0x431, 0x432])) of
           None \<Rightarrow> None
         | Some mm \<Rightarrow> Some (ascii ''2000'' @ [0x2E] @ mm @ [0x2E] @ py_zfill 2 (ascii ''1'')))"
    using C3_extract_date_none [of _ _ "ascii ''1''" "[0x430, 0x431, 0x432]" "ascii ''2000''" "[]"] m
    by simp
  then have b: "extract_date (ascii ''1 '' @ [0x430, 0x431, 0x432] @ ascii '' 2000 '' @
                 ascii ''15 '' @ [0x44F, 0x43D, 0x432] @ ascii '' 2024'') = None"
    by (simp only: t option.case append_Nil)
  from a b show ?thesis by (rule conjI)
qed

subsection \<open>Order of date keys\<close>

lemma digit_value_ascii: "0x30 \<le> c \<Longrightarrow> c \<le> 0x39 \<Longrightarrow> digit_value c = c - 0x30"
  by (simp add: digit_value_def decimal_zeros_def)

lemma foldl_number_shift:
  "foldl (\<lambda>acc c. 10 * acc + digit_value c) a ds =
     a * 10 ^ length ds + foldl (\<lambda>acc c. 10 * acc + digit_value c) 0 ds"
proof (induction ds arbitrary: a)
  case Nil
  show ?case by simp
next
  case (Cons c cs)
  show ?case
    using Cons.IH [of "10 * a + digit_value c"] Cons.IH [of "digit_value c"]
    by (simp add: algebra_simps)
qed

lemma number_of_Cons: "number_of (c # cs) = digit_value c * 10 ^ length cs + number_of cs"
  using foldl_number_shift [of "digit_value c" cs] by (simp add: number_of_def)

lemma number_of_bound: "ascii_digits ds \<Longrightarrow> number_of ds < 10 ^ length ds"
proof (induction ds)
  case Nil
  show ?case by (simp add: number_of_def)
next
  case (Cons c cs)
  then have c: "0x30 \<le> c" "c \<le> 0x39" and cs: "number_of cs < 10 ^ length cs"
    by (simp_all add: ascii_digits_def)
  from c have "digit_value c \<le> 9" by (simp add: digit_value_ascii)
  then have "digit_value c * 10 ^ length cs \<le> 9 * 10 ^ length cs"
    by (rule mult_le_mono1)
  with cs have "digit_value c * 10 ^ length cs + number_of cs < 10 * 10 ^ length cs"
    by linarith
  then show ?case by (simp add: number_of_Cons)
qed

lemma ascii_digits_order:
  assumes "length a = length b" and "ascii_digits a" and "ascii_digits b"
  shows "(a < b \<longleftrightarrow> number_of a < number_of b) \<and> (a = b \<longleftrightarrow> number_of a = number_of b)"
  using assms
proof (induction a b rule: list_induct2)
  case Nil
  show ?case by simp
next
  case (Cons x xs y ys)
  then have x: "0x30 \<le> x" "x \<le> 0x39" and y: "0x30 \<le> y" "y \<le> 0x39"
    and xs: "ascii_digits xs" and ys: "ascii_digits ys"
    by (simp_all add: ascii_digits_def)
  from Cons.IH [OF xs ys] have ih: "xs < ys \<longleftrightarrow> number_of xs < number_of ys"
    "xs = ys \<longleftrightarrow> number_of xs = number_of ys" by blast+
  define p :: nat where "p = 10 ^ length xs"
  have bx: "number_of xs < p" using number_of_bound [OF xs] by (simp add: p_def)
  have by': "number_of ys < p" using number_of_bound [OF ys] Cons.hyps by (simp add: p_def)
  have nx: "number_of (x # xs) = (x - 0x30) * p + number_of xs"
    using x by (simp add: number_of_Cons digit_value_ascii p_def)
  have ny: "number_of (y # ys) = (y - 0x30) * p + number_of ys"
    using y Cons.hyps by (simp add: number_of_Cons digit_value_ascii p_def)
  consider "x < y" | "x = y" | "y < x" by linarith
  then show ?case
  proof cases
    case 1
    with x have "x - 0x30 + 1 \<le> y - 0x30" by simp
    then have "(x - 0x30 + 1) * p \<le> (y - 0x30) * p" by (rule mult_le_mono1)
    then have "(x - 0x30) * p + p \<le> (y - 0x30) * p" by (simp add: algebra_simps)
    with bx have "number_of (x # xs) < number_of (y # ys)" unfolding nx ny by linarith
    with 1 show ?thesis by simp
  next
    case 2
    with ih nx ny show ?thesis by simp
  next
    case 3
    with y have "y - 0x30 + 1 \<le> x - 0x30" by simp
    then have "(y - 0x30 + 1) * p \<le> (x - 0x30) * p" by (rule mult_le_mono1)
    then have "(y - 0x30) * p + p \<le> (x - 0x30) * p" by (simp add: algebra_simps)
    with by' have "number_of (y # ys) < number_of (x # xs)" unfolding nx ny by linarith
    with 3 show ?thesis by simp
  qed
qed

lemma less_append_same_length:
  fixes a b u v :: pystr
  assumes "length a = length b"
  shows "a @ u < b @ v \<longleftrightarrow> a < b \<or> (a = b \<and> u < v)"
  using assms by (induction a b rule: list_induct2) auto

lemma key_order:
  assumes y: "length y1 = 4" "length y2 = 4" "ascii_digits y1" "ascii_digits y2"
    and m: "length m1 = 2" "length m2 = 2" "ascii_digits m1" "ascii_digits m2"
    and e: "length e1 = 2" "length e2 = 2" "ascii_digits e1" "ascii_digits e2"
  shows "(y1 @ [0x2E] @ m1 @ [0x2E] @ e1 < y2 @ [0x2E] @ m2 @ [0x2E] @ e2 \<longleftrightarrow>
           chrono_less (number_of y1, number_of m1, number_of e1)
                       (number_of y2, number_of m2, number_of e2)) \<and>
         (y1 @ [0x2E] @ m1 @ [0x2E] @ e1 = y2 @ [0x2E] @ m2 @ [0x2E] @ e2 \<longleftrightarrow>
           (number_of y1, number_of m1, number_of e1) =
           (number_of y2, number_of m2, number_of e2))"
proof -
  have ly: "length y1 = length y2" and lm: "length m1 = length m2"
    and le: "length e1 = length e2"
    using y m e by simp_all
  note oy = ascii_digits_order [OF ly y(3) y(4)]
  note om = ascii_digits_order [OF lm m(3) m(4)]
  note oe = ascii_digits_order [OF le e(3) e(4)]
  have "y1 @ [0x2E] @ m1 @ [0x2E] @ e1 < y2 @ [0x2E] @ m2 @ [0x2E] @ e2 \<longleftrightarrow>
        y1 < y2 \<or> (y1 = y2 \<and> (m1 < m2 \<or> (m1 = m2 \<and> e1 < e2)))"
    using less_append_same_length [OF ly, of "[0x2E] @ m1 @ [0x2E] @ e1" "[0x2E] @ m2 @ [0x2E] @ e2"]
      less_append_same_length [OF lm, of "[0x2E] @ e1" "[0x2E] @ e2"]
    by simp
  moreover have "y1 @ [0x2E] @ m1 @ [0x2E] @ e1 = y2 @ [0x2E] @ m2 @ [0x2E] @ e2 \<longleftrightarrow>
        y1 = y2 \<and> m1 = m2 \<and> e1 = e2"
    using ly lm by auto
  ultimately show ?thesis
    using oy om oe by (simp add: chrono_less_def)
qed

lemma padded_day:
  assumes "list_all uni_isdecimal day" and "length day = 1 \<or> length day = 2"
    and "ascii_digits (if length day = 1 then 0x30 # day else day)"
  shows "length (if length day = 1 then 0x30 # day else day) = 2 \<and>
         number_of (if length day = 1 then 0x30 # day else day) = number_of day"
proof (cases "length day = 1")
  case True
  have "digit_value 0x30 = 0" by (simp add: digit_value_ascii)
  with True show ?thesis by (simp add: number_of_Cons)
next
  case False
  with assms(2) show ?thesis by simp
qed

lemma ascii_key_parts:
  assumes "ascii_date_key (y @ [0x2E] @ m @ [0x2E] @ e)"
    and "list_all uni_isdecimal y" and "list_all uni_isdecimal e'" and "set e \<subseteq> insert 0x30 (set e')"
  shows "ascii_digits y \<and> ascii_digits e"
proof -
  have dec: "\<And>c. uni_isdecimal c \<Longrightarrow> c \<noteq> 0x2E" using not_decimal_sign(3) by blast
  have "\<forall>c\<in>set y. c = 0x2E \<or> (0x30 \<le> c \<and> c \<le> 0x39)"
    and e: "\<forall>c\<in>set e. c = 0x2E \<or> (0x30 \<le> c \<and> c \<le> 0x39)"
    using assms(1) by (auto simp: ascii_date_key_def list_all_iff)
  moreover have "\<forall>c\<in>set y. c \<noteq> 0x2E" using assms(2) dec by (auto simp: list_all_iff)
  moreover have "\<forall>c\<in>set e. c \<noteq> 0x2E"
  proof
    fix c assume "c \<in> set e"
    with assms(4) have "c = 0x30 \<or> c \<in> set e'" by auto
    then show "c \<noteq> 0x2E" using assms(3) dec by (auto simp: list_all_iff)
  qed
  ultimately show ?thesis by (auto simp: ascii_digits_def list_all_iff)
qed

lemma dated_text:
  assumes "extract_date t = Some k" and "ascii_date_key k"
  shows "\<exists>y m e. k = y @ [0x2E] @ m @ [0x2E] @ e \<and> length y = 4 \<and> length m = 2 \<and> length e = 2 \<and>
           ascii_digits y \<and> ascii_digits m \<and> ascii_digits e \<and>
           date_triple t = Some (number_of y, number_of m, number_of e)"
proof -
  from assms(1) obtain day mon year where s: "DATE_PATTERN_search t = Some (day, mon, year)"
    by (cases "DATE_PATTERN_search t") (auto simp: extract_date_def)
  with assms(1) obtain mm where m: "map_of MONTHS (py_lower (take 3 mon)) = Some mm"
    by (cases "map_of MONTHS (py_lower (take 3 mon))") (auto simp: extract_date_def)
  define e where "e = (if length day = 1 then 0x30 # day else day)"
  from extract_date_result [OF s m] assms(1) have k: "k = year @ [0x2E] @ mm @ [0x2E] @ e"
    by (simp add: e_def)
  from search_SomeD [OF s] obtain r where "match_here r = Some (day, mon, year)" by blast
  from match_here_SomeD [OF this] have d: "list_all uni_isdecimal day"
    "length day = 1 \<or> length day = 2" and yr: "length year = 4" "list_all uni_isdecimal year"
    by blast+
  have sub: "set e \<subseteq> insert 0x30 (set day)" by (auto simp: e_def)
  from ascii_key_parts [OF assms(2) [unfolded k] yr(2) d(1) sub]
  have ay: "ascii_digits year" and ae: "ascii_digits e" by blast+
  from padded_day [OF d ae [unfolded e_def]] have le: "length e = 2"
    and ne: "number_of e = number_of day" by (simp_all add: e_def)
  from MONTHS_shape [OF m] have mm: "length mm = 2" "ascii_digits mm" by blast+
  have "date_triple t = Some (number_of year, number_of mm, number_of e)"
    using s m ne by (simp add: date_triple_def)
  with k yr(1) mm le ay ae show ?thesis by blast
qed

text \<open>
  Claim C9, as the code has it. For two date keys produced by the Date Extractor and
  written with the ASCII digits 0-9, lexicographic comparison of the keys agrees with
  chronological comparison of their (year, month, day) triples, and equal keys are equal
  triples. The pattern's \<^verbatim>\<open>\d\<close> also accepts the decimal digits of other scripts, and
  a key that copies such digits is outside this statement.
\<close>

theorem C9_key_order_is_chronological:
  "extract_date t1 = Some k1 \<and> extract_date t2 = Some k2 \<and>
   ascii_date_key k1 \<and> ascii_date_key k2 \<longrightarrow>
     (case (date_triple t1, date_triple t2) of
        (Some p1, Some p2) \<Rightarrow> (k1 < k2 \<longleftrightarrow> chrono_less p1 p2) \<and> (k1 = k2 \<longleftrightarrow> p1 = p2)
      | _ \<Rightarrow> False)"
proof (rule impI)
  assume a: "extract_date t1 = Some k1 \<and> extract_date t2 = Some k2 \<and>
    ascii_date_key k1 \<and> ascii_date_key k2"
  then have a1: "extract_date t1 = Some k1" "ascii_date_key k1"
    and a2: "extract_date t2 = Some k2" "ascii_date_key k2" by blast+
  from dated_text [OF a1] obtain y1 m1 e1 where
    k1: "k1 = y1 @ [0x2E] @ m1 @ [0x2E] @ e1" and l1: "length y1 = 4" "length m1 = 2" "length e1 = 2"
    and d1: "ascii_digits y1" "ascii_digits m1" "ascii_digits e1"
    and t1: "date_triple t1 = Some (number_of y1, number_of m1, number_of e1)"
    by blast
  from dated_text [OF a2] obtain y2 m2 e2 where
    k2: "k2 = y2 @ [0x2E] @ m2 @ [0x2E] @ e2" and l2: "length y2 = 4" "length m2 = 2" "length e2 = 2"
    and d2: "ascii_digits y2" "ascii_digits m2" "ascii_digits e2"
    and t2: "date_triple t2 = Some (number_of y2, number_of m2, number_of e2)"
    by blast
  from key_order [OF l1(1) l2(1) d1(1) d2(1) l1(2) l2(2) d1(2) d2(2) l1(3) l2(3) d1(3) d2(3)]
  show "case (date_triple t1, date_triple t2) of
        (Some p1, Some p2) \<Rightarrow> (k1 < k2 \<longleftrightarrow> chrono_less p1 p2) \<and> (k1 = k2 \<longleftrightarrow> p1 = p2)
      | _ \<Rightarrow> False"
    unfolding k1 k2 t1 t2 by simp
qed

theorem C9_key_order_is_chronological_witness:
  "date_triple (ascii ''12 '' @ [0x434, 0x435, 0x43A] @ ascii '' 2023'') = Some (2023, 12, 12) \<and>
   date_triple (ascii ''5 '' @ [0x44F, 0x43D, 0x432] @ ascii '' 2024'') = Some (2024, 1, 5) \<and>
   extract_date (ascii ''12 '' @ [0x434, 0x435, 0x43A] @ ascii '' 2023'') = Some (ascii ''2023.12.12'') \<and>
   extract_date (ascii ''5 '' @ [0x44F, 0x43D, 0x432] @ ascii '' 2024'') = Some (ascii ''2024.01.05'') \<and>
   ascii ''2023.12.12'' < ascii ''2024.01.05''"
proof -
  have e1: "extract_date (ascii ''12 '' @ [0x434, 0x435, 0x43A] @ ascii '' 2023'') =
      Some (ascii ''2023.12.12'')"
    by (simp add: date_eval)
  have e2: "extract_date (ascii ''5 '' @ [0x44F, 0x43D, 0x432] @ ascii '' 2024'') =
      Some (ascii ''2024.01.05'')"
    by (simp add: date_eval)
  have t1: "date_triple (ascii ''12 '' @ [0x434, 0x435, 0x43A] @ ascii '' 2023'') =
      Some (2023, 12, 12)"
    by (simp add: date_triple_def number_of_def digit_value_def date_eval)
  have t2: "date_triple (ascii ''5 '' @ [0x44F, 0x43D, 0x432] @ ascii '' 2024'') =
      Some (2024, 1, 5)"
    by (simp add: date_triple_def number_of_def digit_value_def date_eval)
  have k1: "ascii_date_key (ascii ''2023.12.12'')" and k2: "ascii_date_key (ascii ''2024.01.05'')"
    by (simp_all add: ascii_date_key_def ascii_def)
  have c: "chrono_less (2023, 12, 12) (2024, 1, 5)"
    by (simp add: chrono_less_def)
  have "ascii ''2023.12.12'' < ascii ''2024.01.05''"
    using C9_key_order_is_chronological
      [of "ascii ''12 '' @ [0x434, 0x435, 0x43A] @ ascii '' 2023''" "ascii ''2023.12.12''"
          "ascii ''5 '' @ [0x44F, 0x43D, 0x432] @ ascii '' 2024''" "ascii ''2024.01.05''"]
      e1 e2 k1 k2 c
    by (simp only: t1 t2 prod.case option.case simp_thms)
  with e1 e2 t1 t2 show ?thesis by blast
qed

text \<open>
  The claim as stated fails. The day of the first text is the Arabic-Indic digit five
  (U+0665), which \<^verbatim>\<open>\d\<close> matches; its key ends in that character, which sorts after
  every ASCII digit, so the key of day 5 sorts after the key of day 9 of the same month.
\<close>

theorem C9_unicode_digit_counterexample:
  "extract_date ([0x665, 0x20] @ [0x44F, 0x43D, 0x432] @ ascii '' 2024'') =
     Some (ascii ''2024.01.0'' @ [0x665]) \<and>
   extract_date (ascii ''9 '' @ [0x44F, 0x43D, 0x432] @ ascii '' 2024'') =
     Some (ascii ''2024.01.09'') \<and>
   date_triple ([0x665, 0x20] @ [0x44F, 0x43D, 0x432] @ ascii '' 2024'') = Some (2024, 1, 5) \<and>
   date_triple (ascii ''9 '' @ [0x44F, 0x43D, 0x432] @ ascii '' 2024'') = Some (2024, 1, 9) \<and>
   chrono_less (2024, 1, 5) (2024, 1, 9) \<and>
   \<not> (ascii ''2024.01.0'' @ [0x665] < ascii ''2024.01.09'')"
proof -
  have e1: "extract_date ([0x665, 0x20] @ [0x44F, 0x43D, 0x432] @ ascii '' 2024'') =
     Some (ascii ''2024.01.0'' @ [0x665])"
    by (simp add: date_eval)
  have e2: "extract_date (ascii ''9 '' @ [0x44F, 0x43D, 0x432] @ ascii '' 2024'') =
     Some (ascii ''2024.01.09'')"
    by (simp add: date_eval)
  have t1: "date_triple ([0x665, 0x20] @ [0x44F, 0x43D, 0x432] @ ascii '' 2024'') =
     Some (2024, 1, 5)"
    by (simp add: date_triple_def number_of_def digit_value_def date_eval)
  have t2: "date_triple (ascii ''9 '' @ [0x44F, 0x43D, 0x432] @ ascii '' 2024'') =
     Some (2024, 1, 9)"
    by (simp add: date_triple_def number_of_def digit_value_def date_eval)
  have c: "chrono_less (2024, 1, 5) (2024, 1, 9)"
    by (simp add: chrono_less_def)
  have n: "\<not> (ascii ''2024.01.0'' @ [0x665] < ascii ''2024.01.09'')"
    by (simp add: ascii_def)
  from e1 e2 t1 t2 c n show ?thesis by blast
qed

section \<open>Properties of the Document Processor and the Aggregator\<close>

subsection \<open>One anchor\<close>

lemma bucket_update:
  "bucket (AList.update dk v al) k = (if k = dk then v else bucket al k)"
  by (simp add: bucket_def update_conv')

lemma scan_link_log [simp]: "log_records (scan_link pf cfg st lt) = log_records st"
  by (cases lt) (simp add: scan_link_def split: option.splits)

lemma scan_link_all_links:
  "all_links (scan_link pf cfg st lt) = all_links st \<union> fst ` set (link_events pf cfg [lt])"
  by (cases lt) (simp add: scan_link_def link_events_def split: option.splits)

lemma scan_link_bucket:
  "bucket (photos_by_date (scan_link pf cfg st lt)) k =
     bucket (photos_by_date st) k @ dated k (link_events pf cfg [lt])"
  by (cases lt)
     (auto simp: scan_link_def link_events_def dated_def bucket_update split: option.splits)

lemma scan_link_distinct:
  "distinct (map fst (photos_by_date st)) \<Longrightarrow>
   distinct (map fst (photos_by_date (scan_link pf cfg st lt)))"
  by (cases lt) (simp add: scan_link_def distinct_update split: option.splits)

lemma scan_link_same:
  "same_data st st' \<Longrightarrow> same_data (scan_link pf cfg st lt) (scan_link pf cfg st' lt)"
  by (cases lt) (simp add: scan_link_def same_data_def split: option.splits)

lemma set_update_subset: "set (AList.update k v al) \<subseteq> insert (k, v) (set al)"
  by (induction al) auto

lemma bucket_subset: "set (bucket (photos_by_date st) k) \<subseteq> bucket_links st"
proof (cases "map_of (photos_by_date st) k")
  case None
  then show ?thesis by (simp add: bucket_def)
next
  case (Some v)
  then have "(k, v) \<in> set (photos_by_date st)" by (rule map_of_SomeD)
  then have "set v \<subseteq> bucket_links st" by (force simp: bucket_links_def)
  with Some show ?thesis by (simp add: bucket_def)
qed

lemma scan_link_invariant:
  assumes "bucket_links st \<subseteq> all_links st"
  shows "bucket_links (scan_link pf cfg st lt) \<subseteq> all_links (scan_link pf cfg st lt)"
proof (cases lt)
  case (Pair raw parents)
  show ?thesis
  proof (cases "is_image_link pf cfg (py_strip raw)")
    case False
    with Pair assms show ?thesis by (simp add: scan_link_def)
  next
    case True
    show ?thesis
    proof (cases "context_date parents")
      case None
      with Pair True assms show ?thesis
        by (auto simp: scan_link_def bucket_links_def)
    next
      case (Some dk)
      define v where "v = bucket (photos_by_date st) dk @ [py_strip raw]"
      have st': "scan_link pf cfg st lt =
          st\<lparr>all_links := insert (py_strip raw) (all_links st),
             photos_by_date := AList.update dk v (photos_by_date st)\<rparr>"
        using Pair True Some by (simp add: scan_link_def v_def)
      have "bucket_links (scan_link pf cfg st lt) \<subseteq> set v \<union> bucket_links st"
        using set_update_subset [of dk v "photos_by_date st"]
        unfolding st' bucket_links_def by auto
      moreover have "set v \<subseteq> insert (py_strip raw) (bucket_links st)"
        using bucket_subset [of st dk] by (auto simp: v_def)
      ultimately show ?thesis
        using assms unfolding st' by auto
    qed
  qed
qed

subsection \<open>One document\<close>

lemma link_events_append:
  "link_events pf cfg (xs @ ys) = link_events pf cfg xs @ link_events pf cfg ys"
  by (simp add: link_events_def)

lemma link_events_Cons:
  "link_events pf cfg (x # xs) = link_events pf cfg [x] @ link_events pf cfg xs"
  using link_events_append [of pf cfg "[x]" xs] by simp

lemma dated_append: "dated k (xs @ ys) = dated k xs @ dated k ys"
  by (simp add: dated_def)

lemma dated_Nil [simp]: "dated k [] = []"
  by (simp add: dated_def)

lemma link_events_Nil [simp]: "link_events pf cfg [] = []"
  by (simp add: link_events_def)

lemma scan_all_log [simp]:
  "log_records (foldl (scan_link pf cfg) st tags) = log_records st"
  by (induction tags arbitrary: st) simp_all

lemma scan_all_links:
  "all_links (foldl (scan_link pf cfg) st tags) =
     all_links st \<union> fst ` set (link_events pf cfg tags)"
proof (induction tags arbitrary: st)
  case Nil
  show ?case by simp
next
  case (Cons lt tags)
  show ?case
    using Cons.IH [of "scan_link pf cfg st lt"] link_events_Cons [of pf cfg lt tags]
    by (auto simp: scan_link_all_links)
qed

lemma scan_all_bucket:
  "bucket (photos_by_date (foldl (scan_link pf cfg) st tags)) k =
     bucket (photos_by_date st) k @ dated k (link_events pf cfg tags)"
proof (induction tags arbitrary: st)
  case Nil
  show ?case by simp
next
  case (Cons lt tags)
  show ?case
    using Cons.IH [of "scan_link pf cfg st lt"] link_events_Cons [of pf cfg lt tags]
    by (simp add: scan_link_bucket dated_append)
qed

lemma scan_all_distinct:
  "distinct (map fst (photos_by_date st)) \<Longrightarrow>
   distinct (map fst (photos_by_date (foldl (scan_link pf cfg) st tags)))"
  by (induction tags arbitrary: st) (simp_all add: scan_link_distinct)

lemma scan_all_same:
  "same_data st st' \<Longrightarrow>
   same_data (foldl (scan_link pf cfg) st tags) (foldl (scan_link pf cfg) st' tags)"
  by (induction tags arbitrary: st st') (simp_all add: scan_link_same)

lemma scan_all_invariant:
  "bucket_links st \<subseteq> all_links st \<Longrightarrow>
   bucket_links (foldl (scan_link pf cfg) st tags) \<subseteq> all_links (foldl (scan_link pf cfg) st tags)"
  by (induction tags arbitrary: st) (simp_all add: scan_link_invariant)

subsection \<open>One file\<close>

lemma bucket_links_log [simp]: "bucket_links (st\<lparr>log_records := l\<rparr>) = bucket_links st"
  by (simp add: bucket_links_def)

lemma same_data_log [simp]: "same_data st (st\<lparr>log_records := l\<rparr>)"
  by (simp add: same_data_def)

lemma same_data_refl [simp]: "same_data st st"
  by (simp add: same_data_def)

lemma same_data_trans: "same_data a b \<Longrightarrow> same_data b c \<Longrightarrow> same_data a c"
  by (simp add: same_data_def)

lemma same_data_sym: "same_data a b \<Longrightarrow> same_data b a"
  by (simp add: same_data_def)

lemma same_data_log_both:
  "same_data st st' \<Longrightarrow> same_data (st\<lparr>log_records := l\<rparr>) (st'\<lparr>log_records := l'\<rparr>)"
  by (simp add: same_data_def)

lemma process_file_all_links:
  "all_links (fst (process_html_file e cfg st f)) =
     all_links st \<union> fst ` set (file_events e cfg f)"
  by (simp add: process_html_file_def file_events_def scan_all_links
      split: prod.splits sum.splits option.splits)

lemma process_file_bucket:
  "bucket (photos_by_date (fst (process_html_file e cfg st f))) k =
     bucket (photos_by_date st) k @ dated k (file_events e cfg f)"
  by (simp add: process_html_file_def file_events_def scan_all_bucket
      split: prod.splits sum.splits option.splits)

lemma process_file_distinct:
  "distinct (map fst (photos_by_date st)) \<Longrightarrow>
   distinct (map fst (photos_by_date (fst (process_html_file e cfg st f))))"
  by (simp add: process_html_file_def scan_all_distinct
      split: prod.splits sum.splits option.splits)

lemma process_file_same:
  assumes "same_data st st'"
  shows "same_data (fst (process_html_file e cfg st f)) (fst (process_html_file e cfg st' f))"
proof -
  obtain lg r where r: "read_file_with_encoding e f = (lg, r)"
    by (cases "read_file_with_encoding e f") auto
  have l: "same_data (st\<lparr>log_records := log_records st @ lg\<rparr>)
                     (st'\<lparr>log_records := log_records st' @ lg\<rparr>)"
    using assms by (rule same_data_log_both)
  show ?thesis
  proof (cases r)
    case (Inl x)
    with r l show ?thesis by (simp add: process_html_file_def)
  next
    case (Inr d)
    show ?thesis
    proof (cases d)
      case None
      with r l Inr show ?thesis by (simp add: process_html_file_def)
    next
      case (Some soup)
      with r Inr scan_all_same [OF l] show ?thesis by (simp add: process_html_file_def)
    qed
  qed
qed

lemma process_file_invariant:
  assumes "bucket_links st \<subseteq> all_links st"
  shows "bucket_links (fst (process_html_file e cfg st f)) \<subseteq>
         all_links (fst (process_html_file e cfg st f))"
proof -
  obtain lg r where r: "read_file_with_encoding e f = (lg, r)"
    by (cases "read_file_with_encoding e f") auto
  have l: "bucket_links (st\<lparr>log_records := log_records st @ lg\<rparr>) \<subseteq>
           all_links (st\<lparr>log_records := log_records st @ lg\<rparr>)"
    using assms by simp
  show ?thesis
  proof (cases r)
    case (Inl x)
    with r assms show ?thesis by (simp add: process_html_file_def)
  next
    case (Inr d)
    show ?thesis
    proof (cases d)
      case None
      with r assms Inr show ?thesis by (simp add: process_html_file_def)
    next
      case (Some soup)
      with r Inr scan_all_invariant [OF l] show ?thesis by (simp add: process_html_file_def)
    qed
  qed
qed

lemma process_file_fails:
  assumes "file_fails e f"
  shows "same_data st (fst (process_html_file e cfg st f))"
proof -
  obtain lg r where r: "read_file_with_encoding e f = (lg, r)"
    by (cases "read_file_with_encoding e f") auto
  with assms have "(\<exists>x. r = Inl x) \<or> r = Inr None"
    by (auto simp: file_fails_def split: sum.splits option.splits)
  with r show ?thesis by (auto simp: process_html_file_def)
qed

lemma file_fails_events: "file_fails e f \<Longrightarrow> file_events e cfg f = []"
  by (simp add: file_events_def file_fails_def split: sum.splits option.splits)

lemma try_file_fst:
  "same_data (fst (process_html_file e cfg st f)) (try_file e cfg st f)"
  by (simp add: try_file_def split: prod.splits option.splits)

lemma try_file_all_links:
  "all_links (try_file e cfg st f) = all_links st \<union> fst ` set (file_events e cfg f)"
  using try_file_fst [of e cfg st f] process_file_all_links [of e cfg st f]
  by (simp add: same_data_def)

lemma try_file_bucket:
  "bucket (photos_by_date (try_file e cfg st f)) k =
     bucket (photos_by_date st) k @ dated k (file_events e cfg f)"
  using try_file_fst [of e cfg st f] process_file_bucket [of e cfg st f k]
  by (simp add: same_data_def)

lemma try_file_distinct:
  "distinct (map fst (photos_by_date st)) \<Longrightarrow>
   distinct (map fst (photos_by_date (try_file e cfg st f)))"
  using try_file_fst [of e cfg st f] process_file_distinct [of st e cfg f]
  by (simp add: same_data_def)

lemma try_file_same:
  assumes "same_data st st'"
  shows "same_data (try_file e cfg st f) (try_file e cfg st' f)"
  using process_file_same [OF assms, of e cfg f]
    try_file_fst [of e cfg st f] try_file_fst [of e cfg st' f]
  by (simp add: same_data_def)

lemma try_file_invariant:
  assumes "bucket_links st \<subseteq> all_links st"
  shows "bucket_links (try_file e cfg st f) \<subseteq> all_links (try_file e cfg st f)"
  using process_file_invariant [OF assms, of e cfg f] try_file_fst [of e cfg st f]
  by (simp add: same_data_def bucket_links_def)

lemma try_file_fails: "file_fails e f \<Longrightarrow> same_data st (try_file e cfg st f)"
  using process_file_fails [of e f st cfg] try_file_fst [of e cfg st f]
  by (simp add: same_data_def)

subsection \<open>All files\<close>

lemma try_all_links:
  "all_links (foldl (try_file e cfg) st files) =
     all_links st \<union> (\<Union>f\<in>set files. fst ` set (file_events e cfg f))"
proof (induction files arbitrary: st)
  case Nil
  show ?case by simp
next
  case (Cons f files)
  show ?case
    using Cons.IH [of "try_file e cfg st f"] by (auto simp: try_file_all_links)
qed

lemma try_all_bucket:
  "bucket (photos_by_date (foldl (try_file e cfg) st files)) k =
     bucket (photos_by_date st) k @ concat (map (\<lambda>f. dated k (file_events e cfg f)) files)"
proof (induction files arbitrary: st)
  case Nil
  show ?case by simp
next
  case (Cons f files)
  show ?case
    using Cons.IH [of "try_file e cfg st f"] by (simp add: try_file_bucket)
qed

lemma try_all_distinct:
  "distinct (map fst (photos_by_date st)) \<Longrightarrow>
   distinct (map fst (photos_by_date (foldl (try_file e cfg) st files)))"
  by (induction files arbitrary: st) (simp_all add: try_file_distinct)

lemma try_all_same:
  "same_data st st' \<Longrightarrow>
   same_data (foldl (try_file e cfg) st files) (foldl (try_file e cfg) st' files)"
  by (induction files arbitrary: st st') (simp_all add: try_file_same)

lemma try_all_invariant:
  "bucket_links st \<subseteq> all_links st \<Longrightarrow>
   bucket_links (foldl (try_file e cfg) st files) \<subseteq> all_links (foldl (try_file e cfg) st files)"
  by (induction files arbitrary: st) (simp_all add: try_file_invariant)

lemma try_all_skip_failed:
  assumes "file_fails e f"
  shows "same_data (foldl (try_file e cfg) st (fs1 @ f # fs2))
                   (foldl (try_file e cfg) st (fs1 @ fs2))"
proof -
  define a where "a = foldl (try_file e cfg) st fs1"
  have "same_data (try_file e cfg a f) a"
    using try_file_fails [OF assms, of a cfg] by (rule same_data_sym)
  then have "same_data (foldl (try_file e cfg) (try_file e cfg a f) fs2)
                       (foldl (try_file e cfg) a fs2)"
    by (rule try_all_same)
  then show ?thesis by (simp add: a_def)
qed

lemma sort_buckets_bucket:
  "bucket (photos_by_date (sort_buckets st)) k = sort (bucket (photos_by_date st) k)"
  by (simp add: sort_buckets_def bucket_def map_of_map split: option.splits)

lemma sort_buckets_all_links [simp]: "all_links (sort_buckets st) = all_links st"
  by (simp add: sort_buckets_def)

lemma sort_buckets_log [simp]: "log_records (sort_buckets st) = log_records st"
  by (simp add: sort_buckets_def)

lemma sort_buckets_keys [simp]:
  "map fst (photos_by_date (sort_buckets st)) = map fst (photos_by_date st)"
  by (simp add: sort_buckets_def case_prod_beta)

lemma sort_buckets_links [simp]: "bucket_links (sort_buckets st) = bucket_links st"
  by (force simp: sort_buckets_def bucket_links_def)

lemma sort_buckets_sorted: "list_all (\<lambda>(k, v). sorted v) (photos_by_date (sort_buckets st))"
  by (simp add: sort_buckets_def list_all_iff case_prod_beta)

lemma sort_buckets_same: "same_data st st' \<Longrightarrow> same_data (sort_buckets st) (sort_buckets st')"
  by (simp add: same_data_def sort_buckets_def)

subsection \<open>The whole pass\<close>

lemma parse_files_data:
  "same_data (parse_files e cfg st)
     (if snd (find_html_files e cfg) = [] then st
      else sort_buckets (foldl (try_file e cfg) st (snd (find_html_files e cfg))))"
proof -
  obtain lg files where f: "find_html_files e cfg = (lg, files)"
    by (cases "find_html_files e cfg") auto
  show ?thesis
  proof (cases "files = []")
    case True
    with f show ?thesis
      by (simp add: parse_files_def same_data_sym)
  next
    case False
    have "same_data (foldl (try_file e cfg) (st\<lparr>log_records := log_records st @ lg\<rparr>) files)
                    (foldl (try_file e cfg) st files)"
      by (rule try_all_same) (simp add: same_data_sym)
    then have "same_data
        (sort_buckets (foldl (try_file e cfg) (st\<lparr>log_records := log_records st @ lg\<rparr>) files))
        (sort_buckets (foldl (try_file e cfg) st files))"
      by (rule sort_buckets_same)
    with f False show ?thesis
      by (simp add: parse_files_def Let_def same_data_def)
  qed
qed

lemma same_data_bucket_links: "same_data st st' \<Longrightarrow> bucket_links st = bucket_links st'"
  by (simp add: same_data_def bucket_links_def)

lemma parse_files_all_links:
  "all_links (parse_files e cfg st) =
     all_links st \<union> (\<Union>f\<in>set (snd (find_html_files e cfg)). fst ` set (file_events e cfg f))"
  using parse_files_data [of e cfg st]
  by (simp add: same_data_def try_all_links split: if_splits)

lemma parse_files_bucket:
  "bucket (photos_by_date (parse_files e cfg st)) k =
     (if snd (find_html_files e cfg) = [] then bucket (photos_by_date st) k
      else sort (bucket (photos_by_date st) k @
                 concat (map (\<lambda>f. dated k (file_events e cfg f)) (snd (find_html_files e cfg)))))"
  using parse_files_data [of e cfg st]
  by (simp add: same_data_def sort_buckets_bucket try_all_bucket split: if_splits)

lemma parse_files_fresh_bucket:
  "bucket (photos_by_date (parse_files e cfg ImageGalleryParser)) k =
     sort (concat (map (\<lambda>f. dated k (file_events e cfg f)) (snd (find_html_files e cfg))))"
proof -
  have "bucket (photos_by_date ImageGalleryParser) k = []"
    by (simp add: ImageGalleryParser_def bucket_def)
  then show ?thesis by (simp add: parse_files_bucket)
qed

lemma parse_files_invariant:
  assumes "bucket_links st \<subseteq> all_links st"
  shows "bucket_links (parse_files e cfg st) \<subseteq> all_links (parse_files e cfg st)"
proof (cases "snd (find_html_files e cfg) = []")
  case True
  with parse_files_data [of e cfg st] have d: "same_data (parse_files e cfg st) st" by simp
  from same_data_bucket_links [OF d] d assms show ?thesis by (simp add: same_data_def)
next
  case False
  define s where "s = sort_buckets (foldl (try_file e cfg) st (snd (find_html_files e cfg)))"
  from False parse_files_data [of e cfg st] have d: "same_data (parse_files e cfg st) s"
    by (simp add: s_def)
  have "bucket_links s \<subseteq> all_links s"
    using try_all_invariant [OF assms, of e cfg "snd (find_html_files e cfg)"]
    by (simp add: s_def)
  with same_data_bucket_links [OF d] d show ?thesis by (simp add: same_data_def)
qed

lemma parse_files_sorted:
  assumes "snd (find_html_files e cfg) \<noteq> [] \<or> photos_by_date st = []"
  shows "list_all (\<lambda>(k, v). sorted v) (photos_by_date (parse_files e cfg st))"
proof (cases "snd (find_html_files e cfg) = []")
  case True
  with assms parse_files_data [of e cfg st] show ?thesis by (simp add: same_data_def)
next
  case False
  with parse_files_data [of e cfg st]
  have "photos_by_date (parse_files e cfg st) =
      photos_by_date (sort_buckets (foldl (try_file e cfg) st (snd (find_html_files e cfg))))"
    by (simp add: same_data_def)
  then show ?thesis by (simp only: sort_buckets_sorted)
qed

lemma parse_files_distinct:
  assumes "distinct (map fst (photos_by_date st))"
  shows "distinct (map fst (photos_by_date (parse_files e cfg st)))"
  using parse_files_data [of e cfg st] assms
    try_all_distinct [OF assms, of e cfg "snd (find_html_files e cfg)"]
  by (simp add: same_data_def split: if_splits)

subsection \<open>The log\<close>

lemma process_file_log:
  "log_records (fst (process_html_file e cfg st f)) =
     log_records st @ fst (read_file_with_encoding e f)"
  by (simp add: process_html_file_def split: prod.splits sum.splits option.splits)

lemma process_file_raised:
  "snd (process_html_file e cfg st f) =
     (case snd (read_file_with_encoding e f) of Inl x \<Rightarrow> Some x | Inr d \<Rightarrow> None)"
  by (simp add: process_html_file_def split: prod.splits sum.splits option.splits)

lemma try_file_log: "log_records (try_file e cfg st f) = log_records st @ file_log e f"
proof -
  obtain st' r where p: "process_html_file e cfg st f = (st', r)"
    by (cases "process_html_file e cfg st f") auto
  from p process_file_log [of e cfg st f]
  have l: "log_records st' = log_records st @ fst (read_file_with_encoding e f)" by simp
  from p process_file_raised [of e cfg st f]
  have r: "r = (case snd (read_file_with_encoding e f) of Inl x \<Rightarrow> Some x | Inr d \<Rightarrow> None)"
    by simp
  show ?thesis
    using p l r by (simp add: try_file_def file_log_def split: sum.splits)
qed

lemma try_all_log:
  "log_records (foldl (try_file e cfg) st files) =
     log_records st @ concat (map (file_log e) files)"
  by (induction files arbitrary: st) (simp_all add: try_file_log)

lemma parse_files_log:
  assumes "snd (find_html_files e cfg) \<noteq> []"
  shows "set (concat (map (file_log e) (snd (find_html_files e cfg)))) \<subseteq>
         set (log_records (parse_files e cfg st))"
proof -
  obtain lg files where f: "find_html_files e cfg = (lg, files)"
    by (cases "find_html_files e cfg") auto
  with assms show ?thesis
    by (auto simp: parse_files_def Let_def try_all_log)
qed

lemma try_encodings_no_document:
  "snd (try_encodings e p encs) = Inr None \<Longrightarrow>
   WarningCouldNotRead p \<in> set (fst (try_encodings e p encs))"
  by (induction encs) (auto split: sum.splits if_splits prod.splits)

lemma failed_file_logged:
  assumes "file_fails e f"
  shows "(case snd (read_file_with_encoding e f) of
            Inl x \<Rightarrow> ErrorProcessing f x
          | Inr d \<Rightarrow> WarningCouldNotRead f) \<in> set (file_log e f)"
proof (cases "snd (read_file_with_encoding e f)")
  case (Inl x)
  then show ?thesis by (simp add: file_log_def)
next
  case (Inr d)
  with assms have "snd (read_file_with_encoding e f) = Inr None"
    by (simp add: file_fails_def split: option.splits)
  then have "WarningCouldNotRead f \<in> set (fst (read_file_with_encoding e f))"
    unfolding read_file_with_encoding_def by (rule try_encodings_no_document)
  with Inr show ?thesis by (simp add: file_log_def)
qed

subsection \<open>The reader does not look at the file list\<close>

lemma try_encodings_glob [simp]:
  "try_encodings (e\<lparr>glob_html := g\<rparr>) p encs = try_encodings e p encs"
  by (induction encs) (simp_all split: sum.splits)

lemma read_file_glob [simp]:
  "read_file_with_encoding (e\<lparr>glob_html := g\<rparr>) p = read_file_with_encoding e p"
  by (simp only: read_file_with_encoding_def try_encodings_glob)

lemma try_file_glob [simp]: "try_file (e\<lparr>glob_html := g\<rparr>) cfg st f = try_file e cfg st f"
  by (simp add: try_file_def process_html_file_def)

lemma file_events_glob [simp]: "file_events (e\<lparr>glob_html := g\<rparr>) cfg f = file_events e cfg f"
  by (simp add: file_events_def split: sum.splits option.splits)

lemma try_all_glob [simp]:
  "foldl (try_file (e\<lparr>glob_html := g\<rparr>) cfg) st files = foldl (try_file e cfg) st files"
  by (induction files arbitrary: st) simp_all

lemma found_files:
  "glob_html e (input_dir cfg) = Inr files \<Longrightarrow> snd (find_html_files e cfg) = files"
  by (simp add: find_html_files_def)

lemma parse_files_skip_failed:
  assumes g: "glob_html e (input_dir cfg) = Inr (fs1 @ f # fs2)" and f: "file_fails e f"
  shows "same_data (parse_files e cfg ImageGalleryParser)
           (parse_files (e\<lparr>glob_html := \<lambda>d. Inr (fs1 @ fs2)\<rparr>) cfg ImageGalleryParser)"
proof -
  define e' where "e' = e\<lparr>glob_html := \<lambda>d. Inr (fs1 @ fs2)\<rparr>"
  define s0 where "s0 = ImageGalleryParser"
  have fe: "snd (find_html_files e cfg) = fs1 @ f # fs2"
    using g by (rule found_files)
  have fe': "snd (find_html_files e' cfg) = fs1 @ fs2"
    by (simp add: find_html_files_def e'_def)
  have l: "same_data (parse_files e cfg s0)
      (sort_buckets (foldl (try_file e cfg) s0 (fs1 @ fs2)))"
  proof -
    have "same_data (parse_files e cfg s0)
        (sort_buckets (foldl (try_file e cfg) s0 (fs1 @ f # fs2)))"
      using parse_files_data [of e cfg s0] fe by simp
    moreover have "same_data (sort_buckets (foldl (try_file e cfg) s0 (fs1 @ f # fs2)))
        (sort_buckets (foldl (try_file e cfg) s0 (fs1 @ fs2)))"
      using try_all_skip_failed [OF f] by (rule sort_buckets_same)
    ultimately show ?thesis by (rule same_data_trans)
  qed
  have r: "same_data (parse_files e' cfg s0)
      (sort_buckets (foldl (try_file e cfg) s0 (fs1 @ fs2)))"
  proof (cases "fs1 @ fs2 = []")
    case True
    have "same_data (parse_files e' cfg s0) s0"
      using parse_files_data [of e' cfg s0] fe' True by simp
    moreover have "same_data s0 (sort_buckets (foldl (try_file e cfg) s0 (fs1 @ fs2)))"
      using True by (simp add: same_data_def sort_buckets_def s0_def ImageGalleryParser_def)
    ultimately show ?thesis by (rule same_data_trans)
  next
    case False
    have "same_data (parse_files e' cfg s0)
        (if fs1 @ fs2 = [] then s0
         else sort_buckets (foldl (try_file e' cfg) s0 (fs1 @ fs2)))"
      using parse_files_data [of e' cfg s0] unfolding fe' .
    then have "same_data (parse_files e' cfg s0)
        (sort_buckets (foldl (try_file e' cfg) s0 (fs1 @ fs2)))"
      unfolding if_not_P [OF False] .
    moreover have "foldl (try_file e' cfg) s0 (fs1 @ fs2) = foldl (try_file e cfg) s0 (fs1 @ fs2)"
      unfolding e'_def by (rule try_all_glob)
    ultimately show ?thesis by simp
  qed
  from l same_data_sym [OF r] have "same_data (parse_files e cfg s0) (parse_files e' cfg s0)"
    by (rule same_data_trans)
  then show ?thesis by (simp add: e'_def s0_def)
qed

subsection \<open>The example export, evaluated\<close>

lemma example_anchors:
  "find_all_a_href example_soup =
     [(ascii '' a.jpg '', [example_msg1, example_soup]),
      (ascii ''doc.pdf'', [example_msg1, example_soup]),
      (ascii ''a.jpg'', [example_msg2, example_soup]),
      (ascii ''c.gif'', [example_msg2, example_soup]),
      (ascii ''b.PNG?x=1'', [example_soup])]"
  by (simp add: find_all_a_href_def descendants_def example_soup_def example_msg1_def
      example_msg2_def example_message_def ascii_def)

lemma example_message_header:
  "find_tag (ascii ''div'') (ascii ''message__header'') (example_message h links) =
     Some (Tag (ascii ''div'') None [ascii ''message__header'']
             [Tag (ascii ''a'') None [] [NavigableString (ascii ''  Ann '')],
              NavigableString h])"
  by (simp add: find_tag_def descendants_def example_message_def has_name_class_def)

lemma example_message_parent:
  "find_parent (ascii ''div'') (ascii ''message'') (example_message h links # ps) =
     Some (example_message h links)"
  by (simp add: find_parent_def example_message_def has_name_class_def)

lemma example_context1: "context_date [example_msg1, example_soup] = Some (ascii ''2024.01.15'')"
proof -
  have g: "get_text (ascii '' '')
     (Tag (ascii ''div'') None [ascii ''message__header'']
        [Tag (ascii ''a'') None [] [NavigableString (ascii ''  Ann '')],
         NavigableString (ascii ''at 15 '' @ [0x44F, 0x43D, 0x432] @ ascii '' 2024 '')]) =
     ascii ''Ann at 15 '' @ [0x44F, 0x43D, 0x432] @ ascii '' 2024''"
    by (simp add: get_text_def descendants_def py_strip_def uni_isspace_def ascii_def)
  have d: "extract_date (ascii ''Ann at 15 '' @ [0x44F, 0x43D, 0x432] @ ascii '' 2024'') =
     Some (ascii ''2024.01.15'')"
    by (simp add: date_eval)
  have n: "ascii ''2024.01.15'' \<noteq> []" by (simp add: ascii_def)
  show ?thesis
    unfolding example_msg1_def
    by (simp only: context_date_def example_message_parent example_message_header g d
        option.case if_not_P [OF n])
qed

lemma example_context2: "context_date [example_msg2, example_soup] = Some (ascii ''2024.02.16'')"
proof -
  have g: "get_text (ascii '' '')
     (Tag (ascii ''div'') None [ascii ''message__header'']
        [Tag (ascii ''a'') None [] [NavigableString (ascii ''  Ann '')],
         NavigableString (ascii ''16 '' @ [0x444, 0x435, 0x432] @ ascii '' 2024'')]) =
     ascii ''Ann 16 '' @ [0x444, 0x435, 0x432] @ ascii '' 2024''"
    by (simp add: get_text_def descendants_def py_strip_def uni_isspace_def ascii_def)
  have d: "extract_date (ascii ''Ann 16 '' @ [0x444, 0x435, 0x432] @ ascii '' 2024'') =
     Some (ascii ''2024.02.16'')"
    by (simp add: date_eval)
  have n: "ascii ''2024.02.16'' \<noteq> []" by (simp add: ascii_def)
  show ?thesis
    unfolding example_msg2_def
    by (simp only: context_date_def example_message_parent example_message_header g d
        option.case if_not_P [OF n])
qed

lemma example_context3: "context_date [example_soup] = None"
  by (simp add: context_date_def find_parent_def example_soup_def has_name_class_def ascii_def)

lemma example_strip:
  "py_strip (ascii '' a.jpg '') = ascii ''a.jpg''" "py_strip (ascii ''a.jpg'') = ascii ''a.jpg''"
  "py_strip (ascii ''doc.pdf'') = ascii ''doc.pdf''" "py_strip (ascii ''c.gif'') = ascii ''c.gif''"
  "py_strip (ascii ''b.PNG?x=1'') = ascii ''b.PNG?x=1''"
  by (simp_all add: py_strip_def uni_isspace_def ascii_def)

lemmas link_eval =
  is_image_link_def Let_def os_path_splitext_def splitext_generic_def py_rfind_def
  py_lower_def uni_tolower_def Config_def ascii_def upt_rec [of 0]

lemma example_accepts:
  "is_image_link Posix (Config [] [] [] None) (ascii ''a.jpg'')"
  "\<not> is_image_link Posix (Config [] [] [] None) (ascii ''doc.pdf'')"
  "is_image_link Posix (Config [] [] [] None) (ascii ''b.PNG?x=1'')"
  "is_image_link Posix (Config [] [] [] None) (ascii ''c.gif'')"
  by (simp_all add: link_eval)

lemma example_events:
  "file_events example_env (Config [] [] [] None) (ascii ''m.html'') =
     [(ascii ''a.jpg'', Some (ascii ''2024.01.15'')),
      (ascii ''a.jpg'', Some (ascii ''2024.02.16'')),
      (ascii ''c.gif'', Some (ascii ''2024.02.16'')),
      (ascii ''b.PNG?x=1'', None)]"
proof -
  have r: "snd (read_file_with_encoding example_env (ascii ''m.html'')) = Inr (Some example_soup)"
    by (simp add: read_file_with_encoding_def example_env_def)
  have p: "platform example_env = Posix" by (simp add: example_env_def)
  show ?thesis
    by (simp add: file_events_def r p link_events_def example_anchors example_strip
        example_accepts example_context1 example_context2 example_context3)
qed

lemma example_bad_file:
  "snd (read_file_with_encoding example_env (ascii ''bad.html'')) =
     Inl (OtherException (ascii ''Permission denied''))"
proof -
  have "ascii ''bad.html'' \<noteq> ascii ''m.html''" by (simp add: ascii_def)
  then show ?thesis by (simp add: read_file_with_encoding_def example_env_def)
qed

lemma example_bad_fails: "file_fails example_env (ascii ''bad.html'')"
  by (simp add: file_fails_def example_bad_file)

lemma example_bad_events: "file_events example_env cfg (ascii ''bad.html'') = []"
  using example_bad_fails by (rule file_fails_events)

lemma example_glob:
  "glob_html example_env (input_dir cfg) = Inr ([] @ ascii ''bad.html'' # [ascii ''m.html''])"
  by (simp add: example_env_def)

lemma example_found:
  "snd (find_html_files example_env cfg) = [ascii ''bad.html'', ascii ''m.html'']"
  by (simp add: find_html_files_def example_env_def)

lemma example_bucket:
  "bucket (photos_by_date (parse_files example_env (Config [] [] [] None) ImageGalleryParser)) k =
     sort (dated k [(ascii ''a.jpg'', Some (ascii ''2024.01.15'')),
                    (ascii ''a.jpg'', Some (ascii ''2024.02.16'')),
                    (ascii ''c.gif'', Some (ascii ''2024.02.16'')),
                    (ascii ''b.PNG?x=1'', None)])"
  by (simp add: parse_files_fresh_bucket example_found example_bad_events example_events)

lemma example_keys_differ: "ascii ''2024.01.15'' \<noteq> ascii ''2024.02.16''"
  by (simp add: ascii_def)

lemma example_bucket_jan:
  "bucket (photos_by_date (parse_files example_env (Config [] [] [] None) ImageGalleryParser))
     (ascii ''2024.01.15'') = [ascii ''a.jpg'']"
  using example_keys_differ by (simp add: example_bucket dated_def)

lemma example_bucket_feb:
  "bucket (photos_by_date (parse_files example_env (Config [] [] [] None) ImageGalleryParser))
     (ascii ''2024.02.16'') = [ascii ''a.jpg'', ascii ''c.gif'']"
proof -
  have "sort [ascii ''a.jpg'', ascii ''c.gif''] = [ascii ''a.jpg'', ascii ''c.gif'']"
    by (simp add: ascii_def)
  with example_keys_differ show ?thesis by (simp add: example_bucket dated_def)
qed

lemma example_all_links:
  "all_links (parse_files example_env (Config [] [] [] None) ImageGalleryParser) =
     {ascii ''a.jpg'', ascii ''c.gif'', ascii ''b.PNG?x=1''}"
  by (auto simp: parse_files_all_links example_found example_bad_events example_events
      ImageGalleryParser_def)

subsection \<open>Claims about the aggregation\<close>

lemma count_sort: "length (filter P (sort xs)) = length (filter P xs)"
  by (simp add: filter_sort)

text \<open>
  Claim C4, as the code has it. After the pass over the files, a link is in the bucket
  of a date exactly when some file has an accepted anchor with that link inside a
  message of that date, and it stands there as many times as there are such anchors. So
  a link all of whose dated occurrences carry one date is in that one bucket and in no
  other; a link met under several dates is in the bucket of each.
\<close>

theorem C4_link_in_bucket_of_its_dates:
  "(link \<in> set (bucket (photos_by_date (parse_files e cfg ImageGalleryParser)) k) \<longleftrightarrow>
      (\<exists>f\<in>set (snd (find_html_files e cfg)). link \<in> set (dated k (file_events e cfg f)))) \<and>
   length (filter (\<lambda>l. l = link)
             (bucket (photos_by_date (parse_files e cfg ImageGalleryParser)) k)) =
   length (filter (\<lambda>l. l = link)
             (concat (map (\<lambda>f. dated k (file_events e cfg f)) (snd (find_html_files e cfg))))) \<and>
   ((\<exists>f\<in>set (snd (find_html_files e cfg)). link \<in> set (dated k0 (file_events e cfg f))) \<and>
    (\<forall>f\<in>set (snd (find_html_files e cfg)). \<forall>k'.
        link \<in> set (dated k' (file_events e cfg f)) \<longrightarrow> k' = k0) \<longrightarrow>
      (\<forall>k'. link \<in> set (bucket (photos_by_date (parse_files e cfg ImageGalleryParser)) k') \<longleftrightarrow>
            k' = k0))"
proof -
  have m: "\<And>k. link \<in> set (bucket (photos_by_date (parse_files e cfg ImageGalleryParser)) k) \<longleftrightarrow>
      (\<exists>f\<in>set (snd (find_html_files e cfg)). link \<in> set (dated k (file_events e cfg f)))"
    by (simp add: parse_files_fresh_bucket)
  have c: "length (filter (\<lambda>l. l = link)
             (bucket (photos_by_date (parse_files e cfg ImageGalleryParser)) k)) =
      length (filter (\<lambda>l. l = link)
             (concat (map (\<lambda>f. dated k (file_events e cfg f)) (snd (find_html_files e cfg)))))"
    by (simp only: parse_files_fresh_bucket count_sort)
  have u: "(\<exists>f\<in>set (snd (find_html_files e cfg)). link \<in> set (dated k0 (file_events e cfg f))) \<and>
    (\<forall>f\<in>set (snd (find_html_files e cfg)). \<forall>k'.
        link \<in> set (dated k' (file_events e cfg f)) \<longrightarrow> k' = k0) \<longrightarrow>
      (\<forall>k'. link \<in> set (bucket (photos_by_date (parse_files e cfg ImageGalleryParser)) k') \<longleftrightarrow>
            k' = k0)"
    unfolding m by blast
  from m [of k] c u show ?thesis by blast
qed

theorem C4_link_in_bucket_of_its_dates_witness:
  "ascii ''c.gif'' \<in>
     set (bucket (photos_by_date (parse_files example_env (Config [] [] [] None) ImageGalleryParser))
            (ascii ''2024.02.16'')) \<and>
   ascii ''c.gif'' \<notin>
     set (bucket (photos_by_date (parse_files example_env (Config [] [] [] None) ImageGalleryParser))
            (ascii ''2024.01.15''))"
proof -
  have ex: "\<exists>f\<in>set (snd (find_html_files example_env (Config [] [] [] None))).
      ascii ''c.gif'' \<in> set (dated (ascii ''2024.02.16'')
        (file_events example_env (Config [] [] [] None) f))"
  proof -
    have "ascii ''m.html'' \<in> set (snd (find_html_files example_env (Config [] [] [] None)))"
      by (simp add: example_found)
    moreover have "ascii ''c.gif'' \<in> set (dated (ascii ''2024.02.16'')
        (file_events example_env (Config [] [] [] None) (ascii ''m.html'')))"
      by (simp add: example_events dated_def)
    ultimately show ?thesis by blast
  qed
  have un: "\<forall>f\<in>set (snd (find_html_files example_env (Config [] [] [] None))). \<forall>k'.
      ascii ''c.gif'' \<in> set (dated k' (file_events example_env (Config [] [] [] None) f)) \<longrightarrow>
      k' = ascii ''2024.02.16''"
  proof (intro ballI allI impI)
    fix f k'
    assume f: "f \<in> set (snd (find_html_files example_env (Config [] [] [] None)))"
      and c: "ascii ''c.gif'' \<in> set (dated k' (file_events example_env (Config [] [] [] None) f))"
    have n: "ascii ''c.gif'' \<noteq> ascii ''a.jpg''" "ascii ''c.gif'' \<noteq> ascii ''b.PNG?x=1''"
      by (simp_all add: ascii_def)
    from f have "f = ascii ''bad.html'' \<or> f = ascii ''m.html''"
      by (simp add: example_found)
    then show "k' = ascii ''2024.02.16''"
    proof
      assume "f = ascii ''bad.html''"
      with c show ?thesis by (simp add: example_bad_events)
    next
      assume "f = ascii ''m.html''"
      with c n show ?thesis
        by (simp add: example_events dated_def split: if_splits)
    qed
  qed
  have "\<forall>k'. ascii ''c.gif'' \<in>
      set (bucket (photos_by_date (parse_files example_env (Config [] [] [] None) ImageGalleryParser)) k')
      \<longleftrightarrow> k' = ascii ''2024.02.16''"
    using C4_link_in_bucket_of_its_dates
      [of "ascii ''c.gif''" example_env "Config [] [] [] None" _ "ascii ''2024.02.16''"] ex un
    by blast
  with example_keys_differ show ?thesis by simp
qed

text \<open>
  The claim as stated fails: in the example export the link a.jpg stands in a message of
  15 January 2024 and in one of 16 February 2024, and ends in both buckets.
\<close>

theorem C4_two_buckets_counterexample:
  "ascii ''a.jpg'' \<in>
     set (bucket (photos_by_date (parse_files example_env (Config [] [] [] None) ImageGalleryParser))
            (ascii ''2024.01.15'')) \<and>
   ascii ''a.jpg'' \<in>
     set (bucket (photos_by_date (parse_files example_env (Config [] [] [] None) ImageGalleryParser))
            (ascii ''2024.02.16'')) \<and>
   ascii ''2024.01.15'' \<noteq> ascii ''2024.02.16''"
  by (simp add: example_bucket_jan example_bucket_feb example_keys_differ)

text \<open>
  Claim C5. After \<open>parse_files\<close> on a fresh parser every bucket is sorted in the
  lexicographic order of the code points of its links: it is the sorted list of the
  links the files contributed under that date (img10.jpg comes before img2.jpg). The
  same holds from any state when at least one file was found. The renderer is run on
  this state.
\<close>

theorem C5_buckets_sorted:
  "list_all (\<lambda>(k, v). sorted v) (photos_by_date (parse_files e cfg ImageGalleryParser)) \<and>
   (snd (find_html_files e cfg) \<noteq> [] \<longrightarrow>
      list_all (\<lambda>(k, v). sorted v) (photos_by_date (parse_files e cfg st))) \<and>
   bucket (photos_by_date (parse_files e cfg ImageGalleryParser)) k =
     sort (concat (map (\<lambda>f. dated k (file_events e cfg f)) (snd (find_html_files e cfg)))) \<and>
   sort [ascii ''img2.jpg'', ascii ''img10.jpg''] = [ascii ''img10.jpg'', ascii ''img2.jpg''] \<and>
   run e cfg now = generate_html_content now (parse_files e cfg ImageGalleryParser)"
proof -
  have a: "list_all (\<lambda>(k, v). sorted v) (photos_by_date (parse_files e cfg ImageGalleryParser))"
    by (rule parse_files_sorted) (simp add: ImageGalleryParser_def)
  have b: "snd (find_html_files e cfg) \<noteq> [] \<longrightarrow>
      list_all (\<lambda>(k, v). sorted v) (photos_by_date (parse_files e cfg st))"
    using parse_files_sorted [of e cfg st] by blast
  have c: "sort [ascii ''img2.jpg'', ascii ''img10.jpg''] = [ascii ''img10.jpg'', ascii ''img2.jpg'']"
    by (simp add: ascii_def)
  have d: "run e cfg now = generate_html_content now (parse_files e cfg ImageGalleryParser)"
    by (simp add: run_def)
  from a b c d parse_files_fresh_bucket [of e cfg k] show ?thesis by blast
qed

theorem C5_buckets_sorted_witness:
  "list_all (\<lambda>(k, v). sorted v)
     (photos_by_date (parse_files example_env (Config [] [] [] None) ImageGalleryParser)) \<and>
   bucket (photos_by_date (parse_files example_env (Config [] [] [] None) ImageGalleryParser))
     (ascii ''2024.02.16'') = [ascii ''a.jpg'', ascii ''c.gif'']"
proof -
  have n: "snd (find_html_files example_env (Config [] [] [] None)) \<noteq> []"
    by (simp add: example_found)
  have "list_all (\<lambda>(k, v). sorted v)
     (photos_by_date (parse_files example_env (Config [] [] [] None) ImageGalleryParser))"
    using C5_buckets_sorted [of example_env "Config [] [] [] None" ImageGalleryParser] n
    by blast
  with example_bucket_feb show ?thesis by blast
qed

text \<open>
  Claim C8. When the processing of one file of the list fails (the reader raises, or
  gives no document under any encoding), the pass goes on: the index and the link set
  at the end are those of the pass over the list without that file, the contributions
  of all other files, sorted; and the failure is in the log, as an error with the path
  and the exception, or as the reader's warning with the path.
\<close>

theorem C8_failed_file_does_not_stop_the_pass:
  "glob_html e (input_dir cfg) = Inr (fs1 @ f # fs2) \<and> file_fails e f \<longrightarrow>
     photos_by_date (parse_files e cfg ImageGalleryParser) =
       photos_by_date (parse_files (e\<lparr>glob_html := \<lambda>d. Inr (fs1 @ fs2)\<rparr>) cfg ImageGalleryParser) \<and>
     all_links (parse_files e cfg ImageGalleryParser) =
       all_links (parse_files (e\<lparr>glob_html := \<lambda>d. Inr (fs1 @ fs2)\<rparr>) cfg ImageGalleryParser) \<and>
     all_links (parse_files e cfg ImageGalleryParser) =
       (\<Union>g\<in>set (fs1 @ fs2). fst ` set (file_events e cfg g)) \<and>
     bucket (photos_by_date (parse_files e cfg ImageGalleryParser)) k =
       sort (concat (map (\<lambda>g. dated k (file_events e cfg g)) (fs1 @ fs2))) \<and>
     (case snd (read_file_with_encoding e f) of
        Inl x \<Rightarrow> ErrorProcessing f x
      | Inr d \<Rightarrow> WarningCouldNotRead f) \<in> set (log_records (parse_files e cfg ImageGalleryParser))"
proof (rule impI)
  assume a: "glob_html e (input_dir cfg) = Inr (fs1 @ f # fs2) \<and> file_fails e f"
  then have g: "glob_html e (input_dir cfg) = Inr (fs1 @ f # fs2)" and f: "file_fails e f"
    by blast+
  have fe: "snd (find_html_files e cfg) = fs1 @ f # fs2" using g by (rule found_files)
  have ev: "file_events e cfg f = []" using f by (rule file_fails_events)
  from parse_files_skip_failed [OF g f]
  have d: "photos_by_date (parse_files e cfg ImageGalleryParser) =
       photos_by_date (parse_files (e\<lparr>glob_html := \<lambda>d. Inr (fs1 @ fs2)\<rparr>) cfg ImageGalleryParser)"
    and l: "all_links (parse_files e cfg ImageGalleryParser) =
       all_links (parse_files (e\<lparr>glob_html := \<lambda>d. Inr (fs1 @ fs2)\<rparr>) cfg ImageGalleryParser)"
    by (simp_all add: same_data_def)
  have u: "all_links (parse_files e cfg ImageGalleryParser) =
       (\<Union>g\<in>set (fs1 @ fs2). fst ` set (file_events e cfg g))"
    by (simp add: parse_files_all_links fe ev ImageGalleryParser_def)
  have b: "bucket (photos_by_date (parse_files e cfg ImageGalleryParser)) k =
       sort (concat (map (\<lambda>g. dated k (file_events e cfg g)) (fs1 @ fs2)))"
    by (simp add: parse_files_fresh_bucket fe ev)
  have "f \<in> set (snd (find_html_files e cfg))" by (simp add: fe)
  with failed_file_logged [OF f]
  have "(case snd (read_file_with_encoding e f) of
        Inl x \<Rightarrow> ErrorProcessing f x
      | Inr d \<Rightarrow> WarningCouldNotRead f) \<in> set (concat (map (file_log e) (snd (find_html_files e cfg))))"
    by auto
  moreover have "snd (find_html_files e cfg) \<noteq> []" by (simp add: fe)
  ultimately have lg: "(case snd (read_file_with_encoding e f) of
        Inl x \<Rightarrow> ErrorProcessing f x
      | Inr d \<Rightarrow> WarningCouldNotRead f) \<in> set (log_records (parse_files e cfg ImageGalleryParser))"
    using parse_files_log [of e cfg ImageGalleryParser] by blast
  from d l u b lg
  show "photos_by_date (parse_files e cfg ImageGalleryParser) =
       photos_by_date (parse_files (e\<lparr>glob_html := \<lambda>d. Inr (fs1 @ fs2)\<rparr>) cfg ImageGalleryParser) \<and>
     all_links (parse_files e cfg ImageGalleryParser) =
       all_links (parse_files (e\<lparr>glob_html := \<lambda>d. Inr (fs1 @ fs2)\<rparr>) cfg ImageGalleryParser) \<and>
     all_links (parse_files e cfg ImageGalleryParser) =
       (\<Union>g\<in>set (fs1 @ fs2). fst ` set (file_events e cfg g)) \<and>
     bucket (photos_by_date (parse_files e cfg ImageGalleryParser)) k =
       sort (concat (map (\<lambda>g. dated k (file_events e cfg g)) (fs1 @ fs2))) \<and>
     (case snd (read_file_with_encoding e f) of
        Inl x \<Rightarrow> ErrorProcessing f x
      | Inr d \<Rightarrow> WarningCouldNotRead f) \<in> set (log_records (parse_files e cfg ImageGalleryParser))"
    by blast
qed

theorem C8_failed_file_does_not_stop_the_pass_witness:
  "ErrorProcessing (ascii ''bad.html'') (OtherException (ascii ''Permission denied'')) \<in>
     set (log_records (parse_files example_env (Config [] [] [] None) ImageGalleryParser)) \<and>
   all_links (parse_files example_env (Config [] [] [] None) ImageGalleryParser) =
     fst ` set (file_events example_env (Config [] [] [] None) (ascii ''m.html'')) \<and>
   ascii ''a.jpg'' \<in> all_links (parse_files example_env (Config [] [] [] None) ImageGalleryParser)"
proof -
  note t = C8_failed_file_does_not_stop_the_pass
    [of example_env "Config [] [] [] None" "[]" "ascii ''bad.html''" "[ascii ''m.html'']"]
  have h: "glob_html example_env (input_dir (Config [] [] [] None)) =
      Inr ([] @ ascii ''bad.html'' # [ascii ''m.html'']) \<and>
      file_fails example_env (ascii ''bad.html'')"
    using example_glob example_bad_fails by blast
  from t h have
    l: "(case snd (read_file_with_encoding example_env (ascii ''bad.html'')) of
        Inl x \<Rightarrow> ErrorProcessing (ascii ''bad.html'') x
      | Inr d \<Rightarrow> WarningCouldNotRead (ascii ''bad.html'')) \<in>
      set (log_records (parse_files example_env (Config [] [] [] None) ImageGalleryParser))"
    and u: "all_links (parse_files example_env (Config [] [] [] None) ImageGalleryParser) =
      (\<Union>g\<in>set ([] @ [ascii ''m.html'']).
          fst ` set (file_events example_env (Config [] [] [] None) g))"
    by blast+
  from l have l': "ErrorProcessing (ascii ''bad.html'') (OtherException (ascii ''Permission denied'')) \<in>
     set (log_records (parse_files example_env (Config [] [] [] None) ImageGalleryParser))"
    by (simp add: example_bad_file)
  from u have u': "all_links (parse_files example_env (Config [] [] [] None) ImageGalleryParser) =
     fst ` set (file_events example_env (Config [] [] [] None) (ascii ''m.html''))"
    by simp
  then have "ascii ''a.jpg'' \<in>
      all_links (parse_files example_env (Config [] [] [] None) ImageGalleryParser)"
    by (simp add: example_events)
  with l' u' show ?thesis by blast
qed

text \<open>
  Claim C10. Every link held in a bucket is a member of the global link set: this holds
  for the fresh parser, is kept by every turn of the scanning loop, hence by the scan of
  any part of a document, by the processing of a file, by any run of files and by the
  final sort, and so holds at every point of a pass and after it.
\<close>

theorem C10_bucket_links_in_global_set:
  "bucket_links ImageGalleryParser \<subseteq> all_links ImageGalleryParser \<and>
   (bucket_links st \<subseteq> all_links st \<longrightarrow>
      bucket_links (scan_link pf cfg st lt) \<subseteq> all_links (scan_link pf cfg st lt) \<and>
      bucket_links (foldl (scan_link pf cfg) st tags) \<subseteq>
        all_links (foldl (scan_link pf cfg) st tags) \<and>
      bucket_links (fst (process_html_file e cfg st f)) \<subseteq>
        all_links (fst (process_html_file e cfg st f)) \<and>
      bucket_links (foldl (try_file e cfg) st files) \<subseteq>
        all_links (foldl (try_file e cfg) st files) \<and>
      bucket_links (sort_buckets st) \<subseteq> all_links (sort_buckets st) \<and>
      bucket_links (parse_files e cfg st) \<subseteq> all_links (parse_files e cfg st)) \<and>
   bucket_links (parse_files e cfg ImageGalleryParser) \<subseteq>
     all_links (parse_files e cfg ImageGalleryParser)"
proof -
  have i: "bucket_links ImageGalleryParser \<subseteq> all_links ImageGalleryParser"
    by (simp add: bucket_links_def ImageGalleryParser_def)
  have s: "bucket_links st \<subseteq> all_links st \<longrightarrow>
      bucket_links (scan_link pf cfg st lt) \<subseteq> all_links (scan_link pf cfg st lt) \<and>
      bucket_links (foldl (scan_link pf cfg) st tags) \<subseteq>
        all_links (foldl (scan_link pf cfg) st tags) \<and>
      bucket_links (fst (process_html_file e cfg st f)) \<subseteq>
        all_links (fst (process_html_file e cfg st f)) \<and>
      bucket_links (foldl (try_file e cfg) st files) \<subseteq>
        all_links (foldl (try_file e cfg) st files) \<and>
      bucket_links (sort_buckets st) \<subseteq> all_links (sort_buckets st) \<and>
      bucket_links (parse_files e cfg st) \<subseteq> all_links (parse_files e cfg st)"
    using scan_link_invariant [of st pf cfg lt] scan_all_invariant [of st pf cfg tags]
      process_file_invariant [of st e cfg f] try_all_invariant [of st e cfg files]
      parse_files_invariant [of st e cfg]
    by simp
  from i s parse_files_invariant [OF i, of e cfg] show ?thesis by blast
qed

theorem C10_bucket_links_in_global_set_witness:
  "bucket_links (parse_files example_env (Config [] [] [] None) ImageGalleryParser) \<subseteq>
     all_links (parse_files example_env (Config [] [] [] None) ImageGalleryParser) \<and>
   bucket_links (foldl (try_file example_env (Config [] [] [] None)) ImageGalleryParser
                   [ascii ''m.html'']) \<subseteq>
     all_links (foldl (try_file example_env (Config [] [] [] None)) ImageGalleryParser
                  [ascii ''m.html'']) \<and>
   ascii ''b.PNG?x=1'' \<in>
     all_links (parse_files example_env (Config [] [] [] None) ImageGalleryParser)"
proof -
  have i: "bucket_links ImageGalleryParser \<subseteq> all_links ImageGalleryParser"
    by (simp add: bucket_links_def ImageGalleryParser_def)
  note t = C10_bucket_links_in_global_set
    [where st = ImageGalleryParser and e = example_env and cfg = "Config [] [] [] None"
       and files = "[ascii ''m.html'']"]
  from t i have "bucket_links (foldl (try_file example_env (Config [] [] [] None))
      ImageGalleryParser [ascii ''m.html'']) \<subseteq>
     all_links (foldl (try_file example_env (Config [] [] [] None)) ImageGalleryParser
                  [ascii ''m.html''])"
    by blast
  moreover from t have "bucket_links (parse_files example_env (Config [] [] [] None) ImageGalleryParser) \<subseteq>
     all_links (parse_files example_env (Config [] [] [] None) ImageGalleryParser)"
    by blast
  moreover have "ascii ''b.PNG?x=1'' \<in>
     all_links (parse_files example_env (Config [] [] [] None) ImageGalleryParser)"
    by (simp add: example_all_links)
  ultimately show ?thesis by blast
qed

subsection \<open>The keys of the index\<close>

lemma sort_Nil_iff: "sort xs = [] \<longleftrightarrow> xs = []"
  by (metis length_sort length_0_conv)

lemma scan_link_keys:
  "k \<in> fst ` set (photos_by_date (scan_link pf cfg st lt)) \<longleftrightarrow>
     k \<in> fst ` set (photos_by_date st) \<or> dated k (link_events pf cfg [lt]) \<noteq> []"
  by (cases lt) (auto simp: scan_link_def link_events_def dated_def dom_update split: option.splits)

lemma scan_all_keys:
  "k \<in> fst ` set (photos_by_date (foldl (scan_link pf cfg) st tags)) \<longleftrightarrow>
     k \<in> fst ` set (photos_by_date st) \<or> dated k (link_events pf cfg tags) \<noteq> []"
proof (induction tags arbitrary: st)
  case Nil
  show ?case by simp
next
  case (Cons lt tags)
  show ?case
    using Cons.IH [of "scan_link pf cfg st lt"] link_events_Cons [of pf cfg lt tags]
      scan_link_keys [of k pf cfg st lt]
    by (simp add: dated_append)
qed

lemma process_file_keys:
  "k \<in> fst ` set (photos_by_date (fst (process_html_file e cfg st f))) \<longleftrightarrow>
     k \<in> fst ` set (photos_by_date st) \<or> dated k (file_events e cfg f) \<noteq> []"
  by (simp add: process_html_file_def file_events_def scan_all_keys
      split: prod.splits sum.splits option.splits)

lemma try_file_keys:
  "k \<in> fst ` set (photos_by_date (try_file e cfg st f)) \<longleftrightarrow>
     k \<in> fst ` set (photos_by_date st) \<or> dated k (file_events e cfg f) \<noteq> []"
  using try_file_fst [of e cfg st f] process_file_keys [of k e cfg st f]
  by (simp add: same_data_def)

lemma try_all_keys:
  "k \<in> fst ` set (photos_by_date (foldl (try_file e cfg) st files)) \<longleftrightarrow>
     k \<in> fst ` set (photos_by_date st) \<or>
     (\<exists>f\<in>set files. dated k (file_events e cfg f) \<noteq> [])"
proof (induction files arbitrary: st)
  case Nil
  show ?case by simp
next
  case (Cons f files)
  show ?case
    using Cons.IH [of "try_file e cfg st f"] try_file_keys [of k e cfg st f]
    by simp
qed

lemma parse_files_keys:
  "k \<in> fst ` set (photos_by_date (parse_files e cfg ImageGalleryParser)) \<longleftrightarrow>
     bucket (photos_by_date (parse_files e cfg ImageGalleryParser)) k \<noteq> []"
proof -
  let ?files = "snd (find_html_files e cfg)"
  have fresh: "photos_by_date ImageGalleryParser = []"
    by (simp add: ImageGalleryParser_def)
  have b: "bucket (photos_by_date (parse_files e cfg ImageGalleryParser)) k \<noteq> [] \<longleftrightarrow>
             (\<exists>f\<in>set ?files. dated k (file_events e cfg f) \<noteq> [])"
    by (simp add: parse_files_fresh_bucket sort_Nil_iff)
  show ?thesis
  proof (cases "?files = []")
    case True
    with parse_files_data [of e cfg ImageGalleryParser]
    have "photos_by_date (parse_files e cfg ImageGalleryParser) = []"
      by (simp add: same_data_def fresh)
    with b True show ?thesis by simp
  next
    case False
    with parse_files_data [of e cfg ImageGalleryParser]
    have "map fst (photos_by_date (parse_files e cfg ImageGalleryParser)) =
            map fst (photos_by_date (foldl (try_file e cfg) ImageGalleryParser ?files))"
      by (simp add: same_data_def)
    then have "fst ` set (photos_by_date (parse_files e cfg ImageGalleryParser)) =
            fst ` set (photos_by_date (foldl (try_file e cfg) ImageGalleryParser ?files))"
      by (metis set_map)
    with b show ?thesis by (simp add: try_all_keys fresh)
  qed
qed

lemma example_keys:
  "sort (map fst (photos_by_date (parse_files example_env (Config [] [] [] None) ImageGalleryParser))) =
     [ascii ''2024.01.15'', ascii ''2024.02.16'']"
proof -
  let ?S = "parse_files example_env (Config [] [] [] None) ImageGalleryParser"
  have "\<And>k. k \<in> fst ` set (photos_by_date ?S) \<longleftrightarrow>
          k = ascii ''2024.01.15'' \<or> k = ascii ''2024.02.16''"
    by (auto simp: parse_files_keys example_bucket dated_def sort_Nil_iff)
  then have s: "set (sort (map fst (photos_by_date ?S))) =
                  set [ascii ''2024.01.15'', ascii ''2024.02.16'']"
    by auto
  have d: "distinct (sort (map fst (photos_by_date ?S)))"
    using parse_files_distinct [of ImageGalleryParser example_env "Config [] [] [] None"]
    by (simp add: ImageGalleryParser_def)
  have o: "sorted [ascii ''2024.01.15'', ascii ''2024.02.16''] \<and>
           distinct [ascii ''2024.01.15'', ascii ''2024.02.16'']"
    by (simp add: ascii_def)
  from sorted_distinct_set_unique [OF sorted_sort d _ _ s] o show ?thesis by blast
qed

section \<open>Properties of the Report Renderer\<close>

lemma add_date_section_acc:
  "add_date_section st acc k = acc @ add_date_section st [] k"
  by (simp add: add_date_section_def)

lemma foldl_sections:
  "foldl (add_date_section st) acc ks = acc @ concat (map (add_date_section st []) ks)"
proof (induction ks arbitrary: acc)
  case Nil
  show ?case by simp
next
  case (Cons k ks)
  show ?case
    using Cons.IH [of "add_date_section st acc k"] add_date_section_acc [of st acc k]
    by simp
qed

lemma render_sections:
  assumes "photos_by_date st \<noteq> []"
  shows "generate_html_content now st =
           preamble @ [stats_line (card (all_links st))] @
           concat (map (add_date_section st []) (sort (map fst (photos_by_date st)))) @
           footer now"
proof -
  from assms have "sort (map fst (photos_by_date st)) \<noteq> []"
    by (simp add: sort_Nil_iff)
  then show ?thesis
    by (simp add: generate_html_content_def Let_def foldl_sections)
qed

lemma render_empty:
  assumes "photos_by_date st = []"
  shows "generate_html_content now st =
           preamble @ [stats_line (card (all_links st)), no_images_line] @ footer now"
  using assms by (simp add: generate_html_content_def)

lemma py_split_no_sep: "sep \<notin> set a \<Longrightarrow> py_split sep a = [a]"
  by (induction a) auto

lemma py_split_at_sep:
  "sep \<notin> set a \<Longrightarrow> py_split sep (a @ sep # rest) = a # py_split sep rest"
proof (induction a)
  case Nil
  show ?case by simp
next
  case (Cons c a)
  then show ?case by simp
qed

lemma human_date_parts:
  assumes "0x2E \<notin> set y" and "0x2E \<notin> set m" and "0x2E \<notin> set d"
  shows "human_date (y @ [0x2E] @ m @ [0x2E] @ d) = d @ [0x2E] @ m @ [0x2E] @ y"
proof -
  have "py_split 0x2E (y @ 0x2E # m @ 0x2E # d) = [y, m, d]"
    using assms by (simp add: py_split_at_sep py_split_no_sep)
  then show ?thesis by (simp add: human_date_def)
qed

lemma decimal_no_period: "list_all uni_isdecimal s \<Longrightarrow> 0x2E \<notin> set s"
  using not_decimal_sign(3) by (auto simp: list_all_iff)

lemma ascii_digits_no_period: "ascii_digits s \<Longrightarrow> 0x2E \<notin> set s"
  by (auto simp: ascii_digits_def list_all_iff)

lemma human_date_of_key:
  assumes s: "DATE_PATTERN_search text = Some (day, mon, year)"
    and m: "map_of MONTHS (py_lower (take 3 mon)) = Some mm"
  shows "extract_date text =
           Some (year @ [0x2E] @ mm @ [0x2E] @ (if length day = 1 then 0x30 # day else day)) \<and>
         human_date (year @ [0x2E] @ mm @ [0x2E] @ (if length day = 1 then 0x30 # day else day)) =
           (if length day = 1 then 0x30 # day else day) @ [0x2E] @ mm @ [0x2E] @ year"
proof -
  from search_SomeD [OF s] obtain r where "match_here r = Some (day, mon, year)" by blast
  from match_here_SomeD [OF this] have d: "list_all uni_isdecimal day"
    and y: "list_all uni_isdecimal year" by blast+
  from MONTHS_shape [OF m] have "ascii_digits mm" by blast
  then have pm: "0x2E \<notin> set mm" by (rule ascii_digits_no_period)
  have py: "0x2E \<notin> set year" using y by (rule decimal_no_period)
  have "0x2E \<notin> set day" using d by (rule decimal_no_period)
  then have pd: "0x2E \<notin> set (if length day = 1 then 0x30 # day else day)" by simp
  from human_date_parts [OF py pm pd] extract_date_result [OF s m] show ?thesis by blast
qed

lemma human_date_example: "human_date (ascii ''2024.01.15'') = ascii ''15.01.2024''"
  by (simp add: human_date_def ascii_def)

text \<open>
  Claim C6. For a non-empty index the document is the opening lines, the statistics
  line, one section for each key of the index in ascending order of the keys as strings,
  and the closing lines. A section starts with the heading that shows the key with its
  three parts reversed and the number of links of the bucket, and lists the bucket in
  its order. A key made by the Date Extractor, YYYY.MM.DD, is shown as DD.MM.YYYY;
  2024.01.15 is shown as 15.01.2024. That the order of such keys is the order of the
  dates is the subject of claim C9.
\<close>

theorem C6_sections_in_key_order:
  "(photos_by_date st \<noteq> [] \<longrightarrow>
      generate_html_content now st =
        preamble @ [stats_line (card (all_links st))] @
        concat (map (add_date_section st []) (sort (map fst (photos_by_date st)))) @
        footer now) \<and>
   add_date_section st [] k =
     heading_line k (length (bucket (photos_by_date st) k)) # gallery_open_line #
     map link_line (bucket (photos_by_date st) k) @ [gallery_close_line] \<and>
   heading_line k n =
     ascii ''    <h2>'' @ human_date k @ ascii '' ('' @ py_str n @ ascii '' images)</h2>'' \<and>
   sorted (sort (map fst (photos_by_date st))) \<and>
   set (sort (map fst (photos_by_date st))) = fst ` set (photos_by_date st) \<and>
   (distinct (map fst (photos_by_date st)) \<longrightarrow> distinct (sort (map fst (photos_by_date st)))) \<and>
   distinct (map fst (photos_by_date (parse_files e cfg ImageGalleryParser))) \<and>
   human_date (ascii ''2024.01.15'') = ascii ''15.01.2024'' \<and>
   (DATE_PATTERN_search t = Some (day, mon, year) \<and>
    map_of MONTHS (py_lower (take 3 mon)) = Some mm \<longrightarrow>
      extract_date t =
        Some (year @ [0x2E] @ mm @ [0x2E] @ (if length day = 1 then 0x30 # day else day)) \<and>
      human_date (year @ [0x2E] @ mm @ [0x2E] @ (if length day = 1 then 0x30 # day else day)) =
        (if length day = 1 then 0x30 # day else day) @ [0x2E] @ mm @ [0x2E] @ year)"
proof -
  have a: "photos_by_date st \<noteq> [] \<longrightarrow>
      generate_html_content now st =
        preamble @ [stats_line (card (all_links st))] @
        concat (map (add_date_section st []) (sort (map fst (photos_by_date st)))) @
        footer now"
    using render_sections by blast
  have b: "add_date_section st [] k =
     heading_line k (length (bucket (photos_by_date st) k)) # gallery_open_line #
     map link_line (bucket (photos_by_date st) k) @ [gallery_close_line]"
    by (simp add: add_date_section_def)
  have c: "heading_line k n =
     ascii ''    <h2>'' @ human_date k @ ascii '' ('' @ py_str n @ ascii '' images)</h2>''"
    by (simp add: heading_line_def)
  have d: "sorted (sort (map fst (photos_by_date st)))"
    "set (sort (map fst (photos_by_date st))) = fst ` set (photos_by_date st)"
    "distinct (map fst (photos_by_date st)) \<longrightarrow> distinct (sort (map fst (photos_by_date st)))"
    by simp_all
  have f: "distinct (map fst (photos_by_date (parse_files e cfg ImageGalleryParser)))"
    by (rule parse_files_distinct) (simp add: ImageGalleryParser_def)
  have g: "DATE_PATTERN_search t = Some (day, mon, year) \<and>
    map_of MONTHS (py_lower (take 3 mon)) = Some mm \<longrightarrow>
      extract_date t =
        Some (year @ [0x2E] @ mm @ [0x2E] @ (if length day = 1 then 0x30 # day else day)) \<and>
      human_date (year @ [0x2E] @ mm @ [0x2E] @ (if length day = 1 then 0x30 # day else day)) =
        (if length day = 1 then 0x30 # day else day) @ [0x2E] @ mm @ [0x2E] @ year"
    using human_date_of_key by blast
  from a b c d f g human_date_example show ?thesis by blast
qed

theorem C6_sections_in_key_order_witness:
  "run example_env (Config [] [] [] None) example_now =
     preamble @
     [stats_line 3,
      heading_line (ascii ''2024.01.15'') 1, gallery_open_line,
      link_line (ascii ''a.jpg''), gallery_close_line,
      heading_line (ascii ''2024.02.16'') 2, gallery_open_line,
      link_line (ascii ''a.jpg''), link_line (ascii ''c.gif''), gallery_close_line] @
     footer example_now \<and>
   heading_line (ascii ''2024.02.16'') 2 = ascii ''    <h2>16.02.2024 (2 images)</h2>'' \<and>
   extract_date (ascii ''on 7 '' @ [0x414, 0x415, 0x41A] @ ascii '' 1999 at noon'') =
     Some (ascii ''1999.12.07'') \<and>
   human_date (ascii ''1999.12.07'') = ascii ''07.12.1999''"
proof -
  let ?S = "parse_files example_env (Config [] [] [] None) ImageGalleryParser"
  let ?t = "ascii ''on 7 '' @ [0x414, 0x415, 0x41A] @ ascii '' 1999 at noon''"
  note c6j = C6_sections_in_key_order
    [where st = "?S" and now = example_now and k = "ascii ''2024.01.15''" and n = 2
       and e = example_env and cfg = "Config [] [] [] None" and t = "?t"
       and day = "ascii ''7''" and mon = "[0x414, 0x415, 0x41A]" and year = "ascii ''1999''"
       and mm = "ascii ''12''"]
  note c6f = C6_sections_in_key_order
    [where st = "?S" and now = example_now and k = "ascii ''2024.02.16''" and n = 2
       and e = example_env and cfg = "Config [] [] [] None" and t = "?t"
       and day = "ascii ''7''" and mon = "[0x414, 0x415, 0x41A]" and year = "ascii ''1999''"
       and mm = "ascii ''12''"]
  have ne: "photos_by_date ?S \<noteq> []"
    using example_bucket_jan by (auto simp: bucket_def)
  have s: "DATE_PATTERN_search ?t = Some (ascii ''7'', [0x414, 0x415, 0x41A], ascii ''1999'')"
    by (simp add: matcher_eval)
  have m: "map_of MONTHS (py_lower (take 3 [0x414, 0x415, 0x41A])) = Some (ascii ''12'')"
    by (simp add: MONTHS_def py_lower_def uni_tolower_def ascii_def)
  have card3: "card (all_links ?S) = 3"
    by (simp add: example_all_links ascii_def)
  from c6j ne have doc: "generate_html_content example_now ?S =
      preamble @ [stats_line (card (all_links ?S))] @
      concat (map (add_date_section ?S []) (sort (map fst (photos_by_date ?S)))) @ footer example_now"
    by blast
  from c6j have jan: "add_date_section ?S [] (ascii ''2024.01.15'') =
      heading_line (ascii ''2024.01.15'') (length (bucket (photos_by_date ?S) (ascii ''2024.01.15''))) #
      gallery_open_line #
      map link_line (bucket (photos_by_date ?S) (ascii ''2024.01.15'')) @ [gallery_close_line]"
    by blast
  from c6f have feb: "add_date_section ?S [] (ascii ''2024.02.16'') =
      heading_line (ascii ''2024.02.16'') (length (bucket (photos_by_date ?S) (ascii ''2024.02.16''))) #
      gallery_open_line #
      map link_line (bucket (photos_by_date ?S) (ascii ''2024.02.16'')) @ [gallery_close_line]"
    by blast
  from c6f have "heading_line (ascii ''2024.02.16'') 2 =
      ascii ''    <h2>'' @ human_date (ascii ''2024.02.16'') @ ascii '' ('' @ py_str 2 @
      ascii '' images)</h2>''"
    by blast
  then have head: "heading_line (ascii ''2024.02.16'') 2 = ascii ''    <h2>16.02.2024 (2 images)</h2>''"
    by (simp add: human_date_def py_str.simps [of 2] ascii_def)
  from c6j s m have k: "extract_date ?t =
      Some (ascii ''1999'' @ [0x2E] @ ascii ''12'' @ [0x2E] @
            (if length (ascii ''7'') = 1 then 0x30 # ascii ''7'' else ascii ''7'')) \<and>
      human_date (ascii ''1999'' @ [0x2E] @ ascii ''12'' @ [0x2E] @
            (if length (ascii ''7'') = 1 then 0x30 # ascii ''7'' else ascii ''7'')) =
      (if length (ascii ''7'') = 1 then 0x30 # ascii ''7'' else ascii ''7'') @ [0x2E] @
      ascii ''12'' @ [0x2E] @ ascii ''1999''"
    by blast
  then have date: "extract_date ?t = Some (ascii ''1999.12.07'') \<and>
      human_date (ascii ''1999.12.07'') = ascii ''07.12.1999''"
    by (simp add: ascii_def)
  have "run example_env (Config [] [] [] None) example_now =
     preamble @
     [stats_line 3,
      heading_line (ascii ''2024.01.15'') 1, gallery_open_line,
      link_line (ascii ''a.jpg''), gallery_close_line,
      heading_line (ascii ''2024.02.16'') 2, gallery_open_line,
      link_line (ascii ''a.jpg''), link_line (ascii ''c.gif''), gallery_close_line] @
     footer example_now"
    unfolding run_def doc example_keys card3
    by (simp add: jan feb example_bucket_jan example_bucket_feb numeral_2_eq_2)
  with head date show ?thesis by blast
qed

text \<open>
  Claim C7. When the index has no bucket, the renderer returns the opening lines, the
  statistics line, the notice that no images were found, and the closing lines: a
  document that starts with the document type and ends with the closing tag of the
  root, in which the notice stands once and no line is a section heading (a heading
  starts with four spaces and the h2 tag). When the directory search gives no file
  (it finds none, or it raises and the error is logged), parsing a fresh parser and
  rendering gives that document with the count 0.
\<close>

theorem C7_empty_index_notice:
  \<open>(photos_by_date st = [] \<longrightarrow>
      generate_html_content now st =
        preamble @ [stats_line (card (all_links st)), no_images_line] @ footer now) \<and>
   (snd (find_html_files e cfg) = [] \<longrightarrow>
      run e cfg now =
        preamble @
        [ascii ''    <div class="stats">Total images found: 0</div>'', no_images_line] @
        footer now) \<and>
   (glob_html e (input_dir cfg) = Inr [] \<longrightarrow> snd (find_html_files e cfg) = []) \<and>
   filter (\<lambda>l. l = no_images_line) (preamble @ [stats_line n, no_images_line] @ footer now) =
     [no_images_line] \<and>
   filter (\<lambda>l. take 8 l = ascii ''    <h2>'')
     (preamble @ [stats_line n, no_images_line] @ footer now) = [] \<and>
   take 8 (heading_line k m) = ascii ''    <h2>'' \<and>
   hd (preamble @ [stats_line n, no_images_line] @ footer now) = ascii ''<!DOCTYPE html>'' \<and>
   last (preamble @ [stats_line n, no_images_line] @ footer now) = ascii ''</html>''\<close>
proof -
  have a: "photos_by_date st = [] \<longrightarrow>
      generate_html_content now st =
        preamble @ [stats_line (card (all_links st)), no_images_line] @ footer now"
    using render_empty by blast
  have b: \<open>snd (find_html_files e cfg) = [] \<longrightarrow>
      run e cfg now =
        preamble @
        [ascii ''    <div class="stats">Total images found: 0</div>'', no_images_line] @
        footer now\<close>
  proof (rule impI)
    assume f: "snd (find_html_files e cfg) = []"
    let ?S = "parse_files e cfg ImageGalleryParser"
    from parse_files_data [of e cfg ImageGalleryParser] f
    have "same_data ?S ImageGalleryParser" by simp
    then have p: "photos_by_date ?S = []" and l: "all_links ?S = {}"
      by (simp_all add: same_data_def ImageGalleryParser_def)
    have z: \<open>stats_line 0 = ascii ''    <div class="stats">Total images found: 0</div>''\<close>
      by (simp add: stats_line_def py_str.simps [of 0] ascii_def)
    from render_empty [OF p, of now] l z show \<open>run e cfg now =
        preamble @
        [ascii ''    <div class="stats">Total images found: 0</div>'', no_images_line] @
        footer now\<close>
      by (simp add: run_def)
  qed
  have c: "glob_html e (input_dir cfg) = Inr [] \<longrightarrow> snd (find_html_files e cfg) = []"
    by (simp add: find_html_files_def)
  have d: "filter (\<lambda>l. l = no_images_line) (preamble @ [stats_line n, no_images_line] @ footer now) =
     [no_images_line]"
    by (simp add: preamble_def footer_def stats_line_def no_images_line_def ascii_def)
  have f: "filter (\<lambda>l. take 8 l = ascii ''    <h2>'')
     (preamble @ [stats_line n, no_images_line] @ footer now) = []"
    by (simp add: preamble_def footer_def stats_line_def no_images_line_def ascii_def)
  have g: "take 8 (heading_line k m) = ascii ''    <h2>''"
    by (simp add: heading_line_def ascii_def)
  have h: "hd (preamble @ [stats_line n, no_images_line] @ footer now) = ascii ''<!DOCTYPE html>''"
    by (simp add: preamble_def)
  have i: "last (preamble @ [stats_line n, no_images_line] @ footer now) = ascii ''</html>''"
    by (simp add: footer_def)
  from a b c d f g h i show ?thesis by blast
qed

theorem C7_empty_index_notice_witness:
  \<open>run (example_env\<lparr>glob_html := \<lambda>d. Inr []\<rparr>) (Config [] [] [] None) example_now =
     preamble @
     [ascii ''    <div class="stats">Total images found: 0</div>'', no_images_line] @
     footer example_now \<and>
   generate_html_content example_now (ImageGalleryParser\<lparr>all_links := {ascii ''b.png''}\<rparr>) =
     preamble @ [stats_line 1, no_images_line] @ footer example_now\<close>
proof -
  let ?e = "example_env\<lparr>glob_html := \<lambda>d. Inr []\<rparr>"
  let ?st = "ImageGalleryParser\<lparr>all_links := {ascii ''b.png''}\<rparr>"
  note c7 = C7_empty_index_notice
    [where st = "?st" and now = example_now and e = "?e" and cfg = "Config [] [] [] None"]
  have g: "glob_html ?e (input_dir (Config [] [] [] None)) = Inr []" by simp
  have p: "photos_by_date ?st = []" by (simp add: ImageGalleryParser_def)
  have l: "card (all_links ?st) = 1" by simp
  from c7 g have \<open>run ?e (Config [] [] [] None) example_now =
     preamble @
     [ascii ''    <div class="stats">Total images found: 0</div>'', no_images_line] @
     footer example_now\<close>
    by blast
  moreover from c7 p have "generate_html_content example_now ?st =
     preamble @ [stats_line (card (all_links ?st)), no_images_line] @ footer example_now"
    by blast
  ultimately show ?thesis unfolding l by blast
qed


end
